theory Spec2Isabelle
  imports Main "HOL-Library.Word"
begin

unbundle bit_operations_syntax

section \<open>Python values and the exceptions of calc.py\<close>

text \<open>
  Python integers are unbounded, so they are modelled as \<open>int\<close>: \<open>&\<close>, \<open>|\<close>, \<open>^\<close> and
  \<open>~\<close> are \<open>AND\<close>, \<open>OR\<close>, \<open>XOR\<close> and \<open>NOT\<close> on the two's complement reading of
  \<open>int\<close>, \<open>x << n\<close> is \<open>push_bit n x\<close> and \<open>x >> n\<close> is \<open>drop_bit n x\<close> (floor
  division by a power of two). A \<open>bytes\<close> object is a list of 8-bit words, each read as the
  integer \<open>uint b\<close> in \<open>0..255\<close>.

  Three exceptions can leave the functions of calc.py: \<open>ValueError\<close> (a negative shift count,
  or the explicit range checks of the windowed engine), \<open>IndexError\<close> (a list subscript out of
  range) and \<open>AssertionError\<close> (the assert of the windowed engine).
\<close>

datatype error = ValueError | IndexError | AssertionError

type_synonym byte = "8 word"

definition bind :: "error + 'a \<Rightarrow> ('a \<Rightarrow> error + 'b) \<Rightarrow> error + 'b" where
  "bind m f = (case m of Inl e \<Rightarrow> Inl e | Inr x \<Rightarrow> f x)"

text \<open>\<open>x << n\<close> and \<open>x >> n\<close> with a count that is a variable: a negative count raises.\<close>

definition lshift :: "int \<Rightarrow> int \<Rightarrow> error + int" where
  "lshift x n = (if n < 0 then Inl ValueError else Inr (push_bit (nat n) x))"

definition rshift :: "int \<Rightarrow> int \<Rightarrow> error + int" where
  "rshift x n = (if n < 0 then Inl ValueError else Inr (drop_bit (nat n) x))"

text \<open>\<open>xs[i]\<close>: a negative index counts from the end, anything outside raises.\<close>

definition getitem :: "'a list \<Rightarrow> int \<Rightarrow> error + 'a" where
  "getitem xs i =
     (if 0 \<le> i \<and> i < int (length xs) then Inr (xs ! nat i)
      else if i < 0 \<and> - int (length xs) \<le> i then Inr (xs ! nat (int (length xs) + i))
      else Inl IndexError)"

section \<open>Bit reversal\<close>

text \<open>
  \<open>bit_reverse_byte\<close>: the loop over \<open>range(8)\<close> sets bit \<open>7 - i\<close> of the result for
  every set bit \<open>i\<close> of the argument.
\<close>

definition bit_reverse_byte :: "int \<Rightarrow> int" where
  "bit_reverse_byte byte =
     fold (\<lambda>i result. if byte AND push_bit i 1 \<noteq> 0 then result OR push_bit (7 - i) 1 else result)
       [0..<8] 0 AND 255"

text \<open>The module-level table \<open>_REV8BITS\<close>, built when the module is loaded.\<close>

definition REV8BITS :: "int list" where
  "REV8BITS = map (\<lambda>n. bit_reverse_byte (int n)) [0..<256]"

text \<open>
  \<open>bit_reverse_n\<close>. The subscript \<open>value & 0xFF\<close> is always within \<open>0..255\<close>, so the read of
  \<open>_REV8BITS\<close> cannot raise; \<open>range(num_bytes)\<close> is empty when \<open>num_bytes\<close> is not positive.
\<close>

fun bit_reverse_loop :: "nat \<Rightarrow> int \<Rightarrow> int \<Rightarrow> int" where
  "bit_reverse_loop 0 result val = result"
| "bit_reverse_loop (Suc k) result val =
     bit_reverse_loop k (push_bit 8 result OR REV8BITS ! nat (val AND 255)) (drop_bit 8 val)"

definition bit_reverse_n :: "int \<Rightarrow> int \<Rightarrow> int" where
  "bit_reverse_n val num_bits =
     (let val' = push_bit (nat ((8 - num_bits) AND 7)) val;
          num_bytes = drop_bit 3 (num_bits + 7)
      in bit_reverse_loop (nat num_bytes) 0 val')"

section \<open>Lookup tables\<close>

text \<open>
  \<open>create_msb_table\<close>. The inner loop \<open>for j in range(0, i)\<close> reads \<open>table[j]\<close> and writes
  \<open>table[i + j]\<close>. The outer loop starts at \<open>i = 1\<close> and doubles \<open>i\<close> while \<open>i <= 128\<close>, so
  \<open>i\<close> is never 0 and every subscript stays below 256; the test \<open>0 < i\<close>, which the source does
  not need, is what makes the recursion well-founded for every argument.
\<close>

definition msb_fill :: "nat \<Rightarrow> int \<Rightarrow> int list \<Rightarrow> int list" where
  "msb_fill i crc table = fold (\<lambda>j t. t[i + j := t ! j XOR crc]) [0..<i] table"

function msb_table_loop :: "int \<Rightarrow> int \<Rightarrow> int \<Rightarrow> nat \<Rightarrow> int \<Rightarrow> int list \<Rightarrow> int list" where
  "msb_table_loop poly ms_bit result_mask i crc table =
     (if 0 < i \<and> i \<le> 128 then
        let crc' = (if crc AND ms_bit \<noteq> 0 then push_bit 1 crc XOR poly else push_bit 1 crc)
                     AND result_mask
        in msb_table_loop poly ms_bit result_mask (push_bit 1 i) crc' (msb_fill i crc' table)
      else table)"
  by pat_completeness auto
termination
  by (relation "measure (\<lambda>(poly, ms_bit, result_mask, i, crc, table). 129 - i)")
     (auto simp add: push_bit_eq_mult)

declare msb_table_loop.simps [simp del]

definition create_msb_table :: "int \<Rightarrow> int \<Rightarrow> error + int list" where
  "create_msb_table poly width =
     bind (lshift 1 (width - 1)) (\<lambda>ms_bit.
     bind (lshift 1 width) (\<lambda>m.
       let result_mask = m - 1;
           table = replicate 256 0;
           crc = ms_bit
       in Inr (msb_table_loop poly ms_bit result_mask 1 crc table)))"

text \<open>
  \<open>create_lsb_table\<close>. \<open>range_step stop step\<close> is \<open>range(0, stop, step)\<close> for a positive
  step; the loop \<open>while i > 0\<close> halves \<open>i\<close> from \<open>0x80\<close>. Nothing in this function can raise.
\<close>

definition range_step :: "nat \<Rightarrow> nat \<Rightarrow> nat list" where
  "range_step stop step = map (\<lambda>k. k * step) [0..<(stop + step - 1) div step]"

definition lsb_fill :: "nat \<Rightarrow> int \<Rightarrow> int list \<Rightarrow> int list" where
  "lsb_fill i crc table = fold (\<lambda>j t. t[i + j := crc XOR t ! j]) (range_step 256 (2 * i)) table"

function lsb_table_loop :: "int \<Rightarrow> nat \<Rightarrow> int \<Rightarrow> int list \<Rightarrow> int list" where
  "lsb_table_loop poly i crc table =
     (if 0 < i then
        let crc' = (if crc AND 1 \<noteq> 0 then drop_bit 1 crc XOR poly else drop_bit 1 crc)
        in lsb_table_loop poly (drop_bit 1 i) crc' (lsb_fill i crc' table)
      else table)"
  by pat_completeness auto
termination
  by (relation "measure (\<lambda>(poly, i, crc, table). i)") (auto simp add: drop_bit_eq_div)

declare lsb_table_loop.simps [simp del]

definition create_lsb_table :: "int \<Rightarrow> int \<Rightarrow> int list" where
  "create_lsb_table poly width =
     lsb_table_loop (bit_reverse_n poly width) 128 1 (replicate 256 0)"

section \<open>The table-driven engines\<close>

text \<open>
  The classes are records of the attributes that \<open>__init__\<close> sets; the attribute \<open>name\<close>, a
  label that no computation reads, is left out. Each \<open>__init__\<close> is a function that returns
  the record or the exception that the constructor raises.
\<close>

record CrcLsbfTable =
  lsbf_table :: "int list"
  lsbf_seed :: int
  lsbf_width :: int
  lsbf_xor_out :: int
  lsbf_result_mask :: int
  lsbf_reverse_result :: bool

definition CrcLsbfTable_init ::
  "int list \<Rightarrow> int \<Rightarrow> int \<Rightarrow> int \<Rightarrow> bool \<Rightarrow> error + CrcLsbfTable" where
  "CrcLsbfTable_init table width seed xor_out reverse_result =
     bind (lshift 1 width) (\<lambda>m.
       Inr \<lparr>lsbf_table = table, lsbf_seed = seed, lsbf_width = width, lsbf_xor_out = xor_out,
            lsbf_result_mask = m - 1, lsbf_reverse_result = reverse_result\<rparr>)"

fun lsbf_loop :: "CrcLsbfTable \<Rightarrow> int \<Rightarrow> byte list \<Rightarrow> error + int" where
  "lsbf_loop e crc [] = Inr crc"
| "lsbf_loop e crc (byte # data) =
     bind (getitem (lsbf_table e) ((crc AND 255) XOR uint byte)) (\<lambda>t.
       lsbf_loop e ((drop_bit 8 crc XOR t) AND lsbf_result_mask e) data)"

definition CrcLsbfTable_calculate :: "CrcLsbfTable \<Rightarrow> byte list \<Rightarrow> error + int" where
  "CrcLsbfTable_calculate e data =
     bind (lsbf_loop e (bit_reverse_n (lsbf_seed e) (lsbf_width e)) data) (\<lambda>crc.
       let crc = (if lsbf_reverse_result e then bit_reverse_n crc (lsbf_width e) else crc)
       in Inr (crc XOR lsbf_xor_out e))"

record CrcMsbfTable =
  msbf_table :: "int list"
  msbf_seed :: int
  msbf_width :: int
  msbf_xor_out :: int
  msbf_result_mask :: int
  msbf_msb_lshift :: int
  msbf_reverse_result :: bool

definition CrcMsbfTable_init ::
  "int list \<Rightarrow> int \<Rightarrow> int \<Rightarrow> int \<Rightarrow> bool \<Rightarrow> error + CrcMsbfTable" where
  "CrcMsbfTable_init table width seed xor_out reverse_result =
     bind (lshift 1 width) (\<lambda>m.
       Inr \<lparr>msbf_table = table, msbf_seed = seed, msbf_width = width, msbf_xor_out = xor_out,
            msbf_result_mask = m - 1, msbf_msb_lshift = width - 8,
            msbf_reverse_result = reverse_result\<rparr>)"

fun msbf_loop :: "CrcMsbfTable \<Rightarrow> int \<Rightarrow> byte list \<Rightarrow> error + int" where
  "msbf_loop e remainder [] = Inr remainder"
| "msbf_loop e remainder (val # data) =
     bind (rshift remainder (msbf_msb_lshift e)) (\<lambda>top.
     bind (getitem (msbf_table e) (top XOR uint val)) (\<lambda>t.
       msbf_loop e ((push_bit 8 remainder XOR t) AND msbf_result_mask e) data))"

definition CrcMsbfTable_calculate :: "CrcMsbfTable \<Rightarrow> byte list \<Rightarrow> error + int" where
  "CrcMsbfTable_calculate e data =
     bind (msbf_loop e (msbf_seed e) data) (\<lambda>remainder.
       let remainder = (if msbf_reverse_result e then bit_reverse_n remainder (msbf_width e)
                        else remainder)
       in Inr (remainder XOR msbf_xor_out e))"

section \<open>The bit-by-bit engines\<close>

record CrcGeneric =
  gen_poly :: int
  gen_width :: int
  gen_default_seed :: int
  gen_xor_out :: int
  gen_result_mask :: int
  gen_crc_lshift :: int
  gen_msb_lshift :: int
  gen_msbit_mask :: int
  gen_crc_mask :: int
  gen_ref_in :: bool
  gen_ref_out :: bool

definition CrcGeneric_init ::
  "int \<Rightarrow> int \<Rightarrow> int \<Rightarrow> bool \<Rightarrow> bool \<Rightarrow> int \<Rightarrow> error + CrcGeneric" where
  "CrcGeneric_init poly width seed ref_in ref_out xor_out =
     bind (lshift 1 width) (\<lambda>m.
       let crc_lshift = (if width < 8 then 8 - width else 0);
           msb_lshift = (if width < 8 then 0 else width - 8)
       in bind (lshift 1 (width + crc_lshift - 1)) (\<lambda>msbit_mask.
          bind (lshift 1 (width + crc_lshift)) (\<lambda>cm.
            Inr \<lparr>gen_poly = poly, gen_width = width, gen_default_seed = seed,
                 gen_xor_out = xor_out, gen_result_mask = m - 1, gen_crc_lshift = crc_lshift,
                 gen_msb_lshift = msb_lshift, gen_msbit_mask = msbit_mask, gen_crc_mask = cm - 1,
                 gen_ref_in = ref_in, gen_ref_out = ref_out\<rparr>)))"

text \<open>The inner loop \<open>for _ in range(_BYTEBITS)\<close>: no mask inside the rounds.\<close>

fun generic_rounds :: "nat \<Rightarrow> int \<Rightarrow> int \<Rightarrow> int \<Rightarrow> int" where
  "generic_rounds 0 msbit_mask poly crc = crc"
| "generic_rounds (Suc n) msbit_mask poly crc =
     generic_rounds n msbit_mask poly
       (if crc AND msbit_mask \<noteq> 0 then push_bit 1 crc XOR poly else push_bit 1 crc)"

fun generic_loop :: "CrcGeneric \<Rightarrow> int \<Rightarrow> int \<Rightarrow> byte list \<Rightarrow> error + int" where
  "generic_loop e poly crc [] = Inr crc"
| "generic_loop e poly crc (b # data) =
     (let byte = (if gen_ref_in e then REV8BITS ! unat b else uint b)
      in bind (lshift byte (gen_msb_lshift e)) (\<lambda>sh.
           generic_loop e poly
             (generic_rounds 8 (gen_msbit_mask e) poly (crc XOR sh) AND gen_crc_mask e) data))"

definition CrcGeneric_calculate :: "CrcGeneric \<Rightarrow> byte list \<Rightarrow> int option \<Rightarrow> error + int" where
  "CrcGeneric_calculate e data seed =
     (let crc = (case seed of Some s \<Rightarrow> s | None \<Rightarrow> gen_default_seed e)
      in bind (lshift crc (gen_crc_lshift e)) (\<lambda>crc.
         bind (lshift (gen_poly e) (gen_crc_lshift e)) (\<lambda>poly.
         bind (generic_loop e poly crc data) (\<lambda>crc.
         bind (rshift crc (gen_crc_lshift e)) (\<lambda>crc.
           let crc = (if gen_ref_out e then bit_reverse_n crc (gen_width e) else crc)
           in Inr (crc XOR gen_xor_out e))))))"

record CrcGenericLsbf =
  glsbf_poly :: int
  glsbf_width :: int
  glsbf_seed :: int
  glsbf_xor_out :: int
  glsbf_result_mask :: int
  glsbf_msbit :: int
  glsbf_msb_lshift :: int
  glsbf_ref_in :: bool
  glsbf_ref_out :: bool

definition CrcGenericLsbf_init ::
  "int \<Rightarrow> int \<Rightarrow> int \<Rightarrow> bool \<Rightarrow> bool \<Rightarrow> int \<Rightarrow> error + CrcGenericLsbf" where
  "CrcGenericLsbf_init poly width seed ref_in ref_out xor_out =
     bind (lshift 1 width) (\<lambda>m.
     bind (lshift 1 (width - 1)) (\<lambda>msbit.
       Inr \<lparr>glsbf_poly = poly, glsbf_width = width, glsbf_seed = seed, glsbf_xor_out = xor_out,
            glsbf_result_mask = m - 1, glsbf_msbit = msbit, glsbf_msb_lshift = width - 8,
            glsbf_ref_in = ref_in, glsbf_ref_out = ref_out\<rparr>))"

fun lsbf_rounds :: "nat \<Rightarrow> int \<Rightarrow> int \<Rightarrow> int" where
  "lsbf_rounds 0 poly crc = crc"
| "lsbf_rounds (Suc n) poly crc =
     lsbf_rounds n poly (if crc AND 1 \<noteq> 0 then drop_bit 1 crc XOR poly else drop_bit 1 crc)"

fun generic_lsbf_loop :: "CrcGenericLsbf \<Rightarrow> int \<Rightarrow> int \<Rightarrow> byte list \<Rightarrow> int" where
  "generic_lsbf_loop e poly crc [] = crc"
| "generic_lsbf_loop e poly crc (b # data) =
     (let byte = (if glsbf_ref_in e then REV8BITS ! unat b else uint b)
      in generic_lsbf_loop e poly (lsbf_rounds 8 poly (crc XOR byte) AND glsbf_result_mask e) data)"

definition CrcGenericLsbf_calculate :: "CrcGenericLsbf \<Rightarrow> byte list \<Rightarrow> int option \<Rightarrow> error + int" where
  "CrcGenericLsbf_calculate e data seed =
     (let crc = (case seed of Some s \<Rightarrow> s | None \<Rightarrow> glsbf_seed e);
          poly = (if glsbf_ref_in e then bit_reverse_n (glsbf_poly e) (glsbf_width e)
                  else glsbf_poly e);
          crc = generic_lsbf_loop e poly crc data;
          crc = (if glsbf_ref_out e then bit_reverse_n crc (glsbf_width e) else crc)
      in Inr (crc XOR glsbf_xor_out e))"

section \<open>The windowed engine\<close>

text \<open>
  Modelled from the spec: the class \<open>CrcParams\<close> of the module \<open>algorithms\<close>, which is not
  among the sources. The spec's Parameter Set has the attributes \<open>polynomial\<close>, \<open>width\<close>,
  \<open>seed\<close>, \<open>reflect_in\<close>, \<open>reflect_out\<close>, \<open>xor_out\<close>, a name and an optional check value;
  the windowed engine reads the first six.
\<close>

record CrcParams =
  params_polynomial :: int
  params_width :: int
  params_seed :: int
  params_reflect_in :: bool
  params_reflect_out :: bool
  params_xor_out :: int

record CrcWindowed =
  win_poly :: int
  win_width :: int
  win_default_seed :: int
  win_xor_out :: int
  win_result_mask :: int
  win_crc_lshift :: int
  win_msb_lshift :: int
  win_msbit_mask :: int
  win_crc_mask :: int
  win_ref_in :: bool
  win_ref_out :: bool

definition CrcWindowed_init :: "CrcParams \<Rightarrow> error + CrcWindowed" where
  "CrcWindowed_init params =
     bind (lshift 1 (params_width params)) (\<lambda>m.
       let crc_lshift = (if params_width params < 8 then 8 - params_width params else 0);
           msb_lshift = (if params_width params < 8 then 0 else params_width params - 8)
       in bind (lshift 1 (params_width params + crc_lshift - 1)) (\<lambda>msbit_mask.
          bind (lshift 1 (params_width params + crc_lshift)) (\<lambda>cm.
            Inr \<lparr>win_poly = params_polynomial params, win_width = params_width params,
                 win_default_seed = params_seed params, win_xor_out = params_xor_out params,
                 win_result_mask = m - 1, win_crc_lshift = crc_lshift,
                 win_msb_lshift = msb_lshift, win_msbit_mask = msbit_mask,
                 win_crc_mask = cm - 1, win_ref_in = params_reflect_in params,
                 win_ref_out = params_reflect_out params\<rparr>)))"

definition calc_end_mask :: "int \<Rightarrow> error + int" where
  "calc_end_mask last_bit = bind (lshift 1 (7 - last_bit)) (\<lambda>m. Inr (NOT (m - 1) AND 255))"

text \<open>The inner loop \<open>for _ in range(block_width)\<close>: here the mask is applied in every round.\<close>

fun windowed_rounds :: "nat \<Rightarrow> int \<Rightarrow> int \<Rightarrow> int \<Rightarrow> int \<Rightarrow> int" where
  "windowed_rounds 0 msbit_mask crc_mask poly crc = crc"
| "windowed_rounds (Suc n) msbit_mask crc_mask poly crc =
     windowed_rounds n msbit_mask crc_mask poly
       ((if crc AND msbit_mask \<noteq> 0 then push_bit 1 crc XOR poly else push_bit 1 crc)
          AND crc_mask)"

text \<open>
  The positions computed before the loop, which the loop body reads. The calls of \<open>print\<close>
  in the loop write to the standard output and change no value; they are left out.
\<close>

record window =
  first_byte :: int
  first_bit :: int
  last_byte :: int
  last_bit :: int
  end_mask :: int

fun windowed_loop ::
  "CrcWindowed \<Rightarrow> byte list \<Rightarrow> window \<Rightarrow> int \<Rightarrow> int list \<Rightarrow> int \<Rightarrow> error + int" where
  "windowed_loop e data w poly [] crc = Inr crc"
| "windowed_loop e data w poly (index # check_range) crc =
     bind (getitem data index) (\<lambda>b.
       let byte = (if win_ref_in e then REV8BITS ! unat b else uint b);
           block_width = (if index = last_byte w then last_bit w + 1 else 8);
           byte = (if index = last_byte w then byte AND end_mask w else byte)
       in bind (if index = first_byte w then lshift byte (first_bit w) else Inr byte) (\<lambda>byte.
          let block_width = (if index = first_byte w then block_width - first_bit w
                             else block_width)
          in bind (lshift byte (win_msb_lshift e)) (\<lambda>sh.
               windowed_loop e data w poly check_range
                 (windowed_rounds (nat block_width) (win_msbit_mask e) (win_crc_mask e) poly
                    (crc XOR sh)))))"

definition CrcWindowed_calculate ::
  "CrcWindowed \<Rightarrow> byte list \<Rightarrow> int \<Rightarrow> int option \<Rightarrow> int option \<Rightarrow> error + int" where
  "CrcWindowed_calculate e data start_bit length_bits seed =
     (let crc = (case seed of Some s \<Rightarrow> s | None \<Rightarrow> win_default_seed e);
          num_input_bits = 8 * int (length data);
          length_bits = (case length_bits of None \<Rightarrow> num_input_bits - start_bit | Some l \<Rightarrow> l)
      in if start_bit \<ge> num_input_bits \<or> start_bit < 0 then Inl ValueError
         else if length_bits < 0 then Inl ValueError
         else if start_bit + length_bits > num_input_bits then Inl ValueError
         else
           bind (calc_end_mask ((start_bit + length_bits - 1) mod 8)) (\<lambda>em.
             let w = \<lparr>first_byte = start_bit div 8, first_bit = start_bit mod 8,
                      last_byte = (start_bit + length_bits - 1) div 8,
                      last_bit = (start_bit + length_bits - 1) mod 8, end_mask = em\<rparr>;
                 check_range = [first_byte w..last_byte w]
             in bind (lshift crc (win_crc_lshift e)) (\<lambda>crc.
                bind (lshift (win_poly e) (win_crc_lshift e)) (\<lambda>poly.
                bind (windowed_loop e data w poly check_range crc) (\<lambda>crc.
                bind (lshift 1 (win_crc_lshift e)) (\<lambda>am.
                  if crc AND (am - 1) \<noteq> 0 then Inl AssertionError
                  else bind (rshift crc (win_crc_lshift e)) (\<lambda>crc.
                    let crc = (if win_ref_out e then bit_reverse_n crc (win_width e) else crc)
                    in Inr (crc XOR win_xor_out e))))))))"

section \<open>The factory functions\<close>

text \<open>
  \<open>create\<close> returns an object of one of the two table-driven classes; \<open>calculate\<close> is the
  method of whichever class the object has. The keyword defaults of the Python functions
  (\<open>ref_in=True\<close>, \<open>ref_out=True\<close>, \<open>xor_out=0xFFFFFF\<close>) are arguments here.
\<close>

datatype table_engine = Lsbf CrcLsbfTable | Msbf CrcMsbfTable

definition create :: "int \<Rightarrow> int \<Rightarrow> int \<Rightarrow> bool \<Rightarrow> bool \<Rightarrow> int \<Rightarrow> error + table_engine" where
  "create poly width seed ref_in ref_out xor_out =
     (if ref_in then
        bind (CrcLsbfTable_init (create_lsb_table poly width) width seed xor_out
                (ref_in \<noteq> ref_out)) (\<lambda>algorithm. Inr (Lsbf algorithm))
      else
        bind (create_msb_table poly width) (\<lambda>table.
        bind (CrcMsbfTable_init table width seed xor_out ref_out) (\<lambda>algorithm.
          Inr (Msbf algorithm))))"

fun calculate :: "table_engine \<Rightarrow> byte list \<Rightarrow> error + int" where
  "calculate (Lsbf e) data = CrcLsbfTable_calculate e data"
| "calculate (Msbf e) data = CrcMsbfTable_calculate e data"

definition create_generic ::
  "int \<Rightarrow> int \<Rightarrow> int \<Rightarrow> bool \<Rightarrow> bool \<Rightarrow> int \<Rightarrow> error + CrcGeneric" where
  "create_generic poly width seed ref_in ref_out xor_out =
     CrcGeneric_init poly width seed ref_in ref_out xor_out"

definition create_windowed_todo :: "CrcParams \<Rightarrow> error + CrcWindowed" where
  "create_windowed_todo params = CrcWindowed_init params"

definition create_generic_lsbf ::
  "int \<Rightarrow> int \<Rightarrow> int \<Rightarrow> bool \<Rightarrow> bool \<Rightarrow> int \<Rightarrow> error + CrcGenericLsbf" where
  "create_generic_lsbf poly width seed ref_in ref_out xor_out =
     CrcGenericLsbf_init poly width seed ref_in ref_out xor_out"

section \<open>Notions used in the proofs\<close>

text \<open>
  \<open>xor_bits c bs n\<close> is the XOR of the values \<open>c b\<close> over the positions \<open>b\<close> of the list
  \<open>bs\<close> at which \<open>n\<close> has a set bit. \<open>msb_step\<close> is one pass through the body of the loop of
  \<open>create_msb_table\<close>, and \<open>lsb_entry poly k\<close> is the value that \<open>create_lsb_table\<close> holds in
  \<open>crc\<close> when it fills the entries for \<open>i = 2 ^ k\<close>.
\<close>

fun xor_bits :: "(nat \<Rightarrow> int) \<Rightarrow> nat list \<Rightarrow> nat \<Rightarrow> int" where
  "xor_bits c [] n = 0"
| "xor_bits c (b # bs) n = (if bit n b then c b else 0) XOR xor_bits c bs n"

definition msb_step :: "int \<Rightarrow> int \<Rightarrow> int \<Rightarrow> int \<Rightarrow> int" where
  "msb_step poly ms_bit result_mask crc =
     (if crc AND ms_bit \<noteq> 0 then push_bit 1 crc XOR poly else push_bit 1 crc) AND result_mask"

definition lsb_entry :: "int \<Rightarrow> nat \<Rightarrow> int" where
  "lsb_entry poly k = lsbf_rounds (8 - k) poly 1"

text \<open>
  One pass through the body of the loop of the windowed engine: \<open>window_byte\<close> is the byte
  that is XORed into the register for the position \<open>index\<close>, after the optional reflection,
  the end mask and the alignment shift, and \<open>window_width\<close> is the number of rounds
  (\<open>block_width\<close>) that follow.
\<close>

definition window_byte :: "CrcWindowed \<Rightarrow> window \<Rightarrow> int \<Rightarrow> byte \<Rightarrow> int" where
  "window_byte e w index b =
     (let byte = (if win_ref_in e then REV8BITS ! unat b else uint b);
          byte = (if index = last_byte w then byte AND end_mask w else byte)
      in if index = first_byte w then push_bit (nat (first_bit w)) byte else byte)"

definition window_width :: "window \<Rightarrow> int \<Rightarrow> int" where
  "window_width w index =
     (let block_width = (if index = last_byte w then last_bit w + 1 else 8)
      in if index = first_byte w then block_width - first_bit w else block_width)"

text \<open>\<open>lsb_step\<close> is one round of the LSB-first shift register.\<close>

definition lsb_step :: "int \<Rightarrow> int \<Rightarrow> int" where
  "lsb_step poly crc = (if crc AND 1 \<noteq> 0 then drop_bit 1 crc XOR poly else drop_bit 1 crc)"

text \<open>
  \<open>msb_round W p\<close> is one round of the MSB-first shift register of \<open>W\<close> bits with the
  polynomial \<open>p\<close>, masked to \<open>W\<close> bits.
\<close>

definition msb_round :: "nat \<Rightarrow> int \<Rightarrow> int \<Rightarrow> int" where
  "msb_round W p x = take_bit W (push_bit 1 x XOR (if bit x (W - 1) then p else 0))"

section \<open>Bit reversal: which bit goes where\<close>

lemma and_pow_ne0: "(b AND 2 ^ k \<noteq> 0) = bit b k" for b :: int
  using bit_iff_and_push_bit_not_eq_0[of b k] by simp

lemma rev_fold_bit:
  "k \<le> 8 \<Longrightarrow> bit (fold (\<lambda>i result. if b AND push_bit i 1 \<noteq> 0 then result OR push_bit (7 - i) 1 else result) [0..<k] acc) r
    \<longleftrightarrow> bit acc r \<or> (\<exists>i<k. bit b i \<and> r = 7 - i)" for b acc :: int
proof (induction k)
  case 0 then show ?case by simp
next
  case (Suc k)
  show ?case using Suc
    by (auto simp add: and_pow_ne0 bit_or_iff bit_push_bit_iff bit_1_iff bit_exp_iff less_Suc_eq)
qed

lemma bit_255: "bit (255::int) r \<longleftrightarrow> r < 8"
  using bit_mask_iff[of 8 r, where ?'a = int] by (simp add: mask_eq_exp_minus_1)

lemma bit_bit_reverse_byte:
  "bit (bit_reverse_byte b) r \<longleftrightarrow> r < 8 \<and> bit b (7 - r)"
proof -
  have "(\<exists>i<8. bit b i \<and> r = 7 - i) \<and> r < 8 \<longleftrightarrow> r < 8 \<and> bit b (7 - r)"
  proof
    assume "(\<exists>i<8. bit b i \<and> r = 7 - i) \<and> r < 8"
    then obtain i where "i < 8" "bit b i" "r = 7 - i" by blast
    then have "7 - r = i" by arith
    with \<open>bit b i\<close> \<open>r = 7 - i\<close> show "r < 8 \<and> bit b (7 - r)" by simp
  next
    assume a: "r < 8 \<and> bit b (7 - r)"
    then have "7 - r < 8 \<and> bit b (7 - r) \<and> r = 7 - (7 - r)" by arith
    then show "(\<exists>i<8. bit b i \<and> r = 7 - i) \<and> r < 8" using a by blast
  qed
  then show ?thesis
    unfolding bit_reverse_byte_def bit_and_iff bit_255
    using rev_fold_bit[of 8 b 0 r] by simp
qed

lemma REV8BITS_nth: "n < 256 \<Longrightarrow> REV8BITS ! n = bit_reverse_byte (int n)"
  by (simp add: REV8BITS_def del: upt_Suc)

lemma and_255_take_bit: "v AND 255 = take_bit 8 v" for v :: int
  by (simp add: take_bit_eq_mask mask_eq_exp_minus_1)

lemma and_255_bounds: "0 \<le> v AND 255" "v AND 255 < 256" for v :: int
  using take_bit_int_less_exp[of 8 v] by (simp_all add: and_255_take_bit)

lemma bit_rev8_and: "bit (REV8BITS ! nat (v AND 255)) r \<longleftrightarrow> r < 8 \<and> bit v (7 - r)"
proof -
  have "nat (v AND 255) < 256" using and_255_bounds[of v] by linarith
  then have "REV8BITS ! nat (v AND 255) = bit_reverse_byte (v AND 255)"
    using and_255_bounds[of v] by (simp add: REV8BITS_nth)
  then show ?thesis
    by (auto simp add: bit_bit_reverse_byte bit_and_iff bit_255)
qed

lemma bit_bit_reverse_loop:
  "bit (bit_reverse_loop k res v) j \<longleftrightarrow> (if j < 8 * k then bit v (8 * k - 1 - j) else bit res (j - 8 * k))"
proof (induction k arbitrary: res v j)
  case 0 then show ?case by simp
next
  case (Suc k)
  have step: "bit (bit_reverse_loop (Suc k) res v) j \<longleftrightarrow>
     (if j < 8 * k then bit v (8 + (8 * k - 1 - j))
      else if j - 8 * k < 8 then bit v (7 - (j - 8 * k)) else bit res (j - 8 * k - 8))"
    by (simp add: Suc bit_drop_bit_eq bit_or_iff bit_push_bit_iff bit_rev8_and not_le)
  consider "j < 8 * k" | "8 * k \<le> j" "j < 8 * k + 8" | "8 * k + 8 \<le> j" by linarith
  then show ?case
  proof cases
    case 1
    then have "8 + (8 * k - 1 - j) = 8 * Suc k - 1 - j" "j < 8 * Suc k" by simp_all
    then show ?thesis using 1 unfolding step by presburger
  next
    case 2
    then have "7 - (j - 8 * k) = 8 * Suc k - 1 - j" "j < 8 * Suc k" "j - 8 * k < 8" "\<not> j < 8 * k"
      by simp_all
    then show ?thesis unfolding step by presburger
  next
    case 3
    then have "j - 8 * k - 8 = j - 8 * Suc k" "\<not> j < 8 * Suc k"  "\<not> j - 8 * k < 8" "\<not> j < 8 * k"
      by simp_all
    then show ?thesis unfolding step by presburger
  qed
qed

lemma pad_bytes: "0 \<le> n \<Longrightarrow> 8 * nat (drop_bit 3 (n + 7)) = nat n + nat ((8 - n) AND 7)" for n :: int
proof -
  assume n: "0 \<le> n"
  have a: "(8 - n) AND 7 = (8 - n) mod 8"
    using take_bit_eq_mask[of 3 "8 - n"] by (simp add: mask_eq_exp_minus_1 take_bit_eq_mod)
  have b: "drop_bit 3 (n + 7) = (n + 7) div 8" by (simp add: drop_bit_eq_div)
  have c: "8 * ((n + 7) div 8) = n + (8 - n) mod 8"
  proof -
    define q where "q = (n + 7) div 8"
    define r where "r = (n + 7) mod 8"
    have r: "0 \<le> r" "r < 8" by (simp_all add: r_def)
    have q: "n + 7 = 8 * q + r" by (simp add: q_def r_def)
    then have "8 - n = (7 - r) + 8 * (1 - q)" by simp
    then have "(8 - n) mod 8 = (7 - r) mod 8" by (simp only: mod_mult_self2)
    also have "\<dots> = 7 - r" using r by simp
    finally show ?thesis using q unfolding q_def[symmetric] by linarith
  qed
  have d: "0 \<le> (n + 7) div 8" "0 \<le> (8 - n) mod 8" using n by simp_all
  have "int (8 * nat ((n + 7) div 8)) = int (nat n + nat ((8 - n) mod 8))"
    using c d n by simp
  then show ?thesis unfolding a b by linarith
qed

lemma bit_bit_reverse_n:
  "bit (bit_reverse_n x n) j \<longleftrightarrow> j < nat n \<and> bit x (nat n - 1 - j)"
proof (cases "0 \<le> n")
  case True
  let ?k = "nat (drop_bit 3 (n + 7))" and ?p = "nat ((8 - n) AND 7)"
  have e: "8 * ?k = nat n + ?p" using True by (rule pad_bytes)
  show ?thesis
  proof (cases "j < nat n")
    case True
    then have "?p \<le> 8 * ?k - 1 - j" "8 * ?k - 1 - j - ?p = nat n - 1 - j" "j < 8 * ?k"
      using e by arith+
    then show ?thesis using True
      by (simp add: bit_reverse_n_def Let_def bit_bit_reverse_loop bit_push_bit_iff)
  next
    case False
    then have "j < 8 * ?k \<Longrightarrow> \<not> ?p \<le> 8 * ?k - 1 - j" using e by arith
    then show ?thesis using False
      by (auto simp add: bit_reverse_n_def Let_def bit_bit_reverse_loop bit_push_bit_iff)
  qed
next
  case False
  then have "drop_bit 3 (n + 7) \<le> 0" by (simp add: drop_bit_eq_div)
  then have "nat (drop_bit 3 (n + 7)) = 0" by simp
  then show ?thesis using False by (simp add: bit_reverse_n_def Let_def)
qed

lemma bit_reverse_n_twice: "bit_reverse_n (bit_reverse_n x n) n = take_bit (nat n) x"
proof (rule bit_eqI)
  fix j
  have "j < nat n \<Longrightarrow> nat n - 1 - j < nat n \<and> nat n - 1 - (nat n - 1 - j) = j" by arith
  then show "bit (bit_reverse_n (bit_reverse_n x n) n) j = bit (take_bit (nat n) x) j"
    by (auto simp add: bit_bit_reverse_n bit_take_bit_iff)
qed

text \<open>
  C6. \<open>bit_reverse_n\<close> is an involution on the values that fit in \<open>n\<close> bits: for every
  \<open>n \<ge> 1\<close> (so in particular for \<open>n\<close> in 1..64) and every \<open>x\<close> with \<open>0 \<le> x < 2 ^ n\<close>,
  reversing twice gives \<open>x\<close> back.
\<close>

theorem bit_reverse_n_involution:
  "1 \<le> n \<Longrightarrow> 0 \<le> x \<Longrightarrow> x < 2 ^ nat n \<Longrightarrow> bit_reverse_n (bit_reverse_n x n) n = x"
  by (simp add: bit_reverse_n_twice take_bit_int_eq_self)

theorem bit_reverse_n_involution_witness:
  "(1::int) \<le> 12 \<and> (0::int) \<le> 2781 \<and> (2781::int) < 2 ^ nat 12
     \<and> bit_reverse_n (bit_reverse_n 2781 12) 12 = 2781"
  using bit_reverse_n_involution[of 12 2781] by simp


section \<open>Evaluating the bit reversal on numerals\<close>

lemma bit_reverse_byte_unfold:
  "bit_reverse_byte b =
     ((if b AND 1 \<noteq> 0 then 128 else 0) OR (if b AND 2 \<noteq> 0 then 64 else 0)
        OR (if b AND 4 \<noteq> 0 then 32 else 0) OR (if b AND 8 \<noteq> 0 then 16 else 0)
        OR (if b AND 16 \<noteq> 0 then 8 else 0) OR (if b AND 32 \<noteq> 0 then 4 else 0)
        OR (if b AND 64 \<noteq> 0 then 2 else 0) OR (if b AND 128 \<noteq> 0 then 1 else 0)) AND 255"
proof -
  have u: "[0..<8] = [0,1,2,3,4,5,6,7]" by (simp add: upt_rec)
  show ?thesis unfolding bit_reverse_byte_def u by (simp add: Let_def ac_simps)
qed

lemma rev8_lookup: "REV8BITS ! nat (v AND 255) = bit_reverse_byte (v AND 255)"
proof -
  have "nat (v AND 255) < 256" using and_255_bounds[of v] by linarith
  then show ?thesis using and_255_bounds[of v] by (simp add: REV8BITS_nth)
qed

lemmas eval_rev = bit_reverse_n_def Let_def drop_bit_eq_div eval_nat_numeral rev8_lookup
  bit_reverse_byte_unfold


section \<open>The structure of the lookup tables\<close>

lemma xor_bits_linear: "xor_bits c bs (i XOR j) = xor_bits c bs i XOR xor_bits c bs j"
  by (induction bs) (auto simp add: bit_xor_iff ac_simps)

lemma xor_bits_append: "xor_bits c (bs @ [b]) n = (if bit n b then c b else 0) XOR xor_bits c bs n"
  by (induction bs) (auto simp add: ac_simps)

lemma xor_bits_cong: "(\<And>b. b \<in> set bs \<Longrightarrow> bit n b = bit m b) \<Longrightarrow> xor_bits c bs n = xor_bits c bs m"
  by (induction bs) auto

lemma xor_nat_less_256: "i < 256 \<Longrightarrow> j < 256 \<Longrightarrow> i XOR j < 256" for i j :: nat
proof -
  assume "i < 256" "j < 256"
  then have "take_bit 8 i = i" "take_bit 8 j = j" by (simp_all add: take_bit_nat_eq_self_iff)
  then have "take_bit 8 (i XOR j) = i XOR j" by (simp add: take_bit_xor)
  then show ?thesis using take_bit_nat_less_exp[of 8 "i XOR j"] by simp
qed

lemma msb_fill_partial:
  "m \<le> i \<Longrightarrow> i + m \<le> length table \<Longrightarrow>
   fold (\<lambda>j t. t[i + j := t ! j XOR crc]) [0..<m] table =
     take i table @ map (\<lambda>x. x XOR crc) (take m table) @ drop (i + m) table"
proof (induction m)
  case 0 then show ?case by simp
next
  case (Suc m)
  let ?t = "take i table @ map (\<lambda>x. x XOR crc) (take m table) @ drop (i + m) table"
  have l: "length ?t = length table" using Suc.prems by simp
  have r: "?t ! m = table ! m" using Suc.prems by (simp add: nth_append)
  have "fold (\<lambda>j t. t[i + j := t ! j XOR crc]) [0..<Suc m] table = ?t[i + m := ?t ! m XOR crc]"
    using Suc by simp
  also have "\<dots> = take i table @ map (\<lambda>x. x XOR crc) (take (Suc m) table) @ drop (i + Suc m) table"
    unfolding r using Suc.prems
    by (simp add: list_update_append take_Suc_conv_app_nth upd_conv_take_nth_drop drop_Suc Cons_nth_drop_Suc[symmetric] )
  finally show ?case .
qed


lemma msb_fill_eq:
  "2 * i \<le> length table \<Longrightarrow>
   msb_fill i crc table = take i table @ map (\<lambda>x. x XOR crc) (take i table) @ drop (2 * i) table"
  unfolding msb_fill_def using msb_fill_partial[of i i table crc] by (simp add: mult_2)

lemma msb_fill_nth:
  assumes "2 * i \<le> length table" "n < length table"
  shows "msb_fill i crc table ! n =
           (if n < i then table ! n else if n < 2 * i then table ! (n - i) XOR crc else table ! n)"
proof -
  consider "n < i" | "i \<le> n" "n < 2 * i" | "2 * i \<le> n" by linarith
  then show ?thesis
  proof cases
    case 1 then show ?thesis using assms by (simp add: msb_fill_eq nth_append)
  next
    case 2
    then have "n - i < i" by linarith
    then show ?thesis using assms 2 by (simp add: msb_fill_eq nth_append)
  next
    case 3
    then have "2 * i + (n - i - i) = n" "\<not> n < i" "\<not> n - i < i" by linarith+
    then show ?thesis using assms 3 by (simp add: msb_fill_eq nth_append)
  qed
qed

lemma length_msb_fill: "2 * i \<le> length table \<Longrightarrow> length (msb_fill i crc table) = length table"
  by (simp add: msb_fill_eq)

lemma bit_nat_high: "n < 2 ^ Suc k \<Longrightarrow> bit n k \<longleftrightarrow> 2 ^ k \<le> n" for n :: nat
proof -
  assume n: "n < 2 ^ Suc k"
  show ?thesis
  proof (cases "n < 2 ^ k")
    case True
    then show ?thesis by (simp add: bit_iff_odd)
  next
    case False
    then have "n div 2 ^ k = Suc ((n - 2 ^ k) div 2 ^ k)" by (simp add: le_div_geq)
    moreover have "n - 2 ^ k < 2 ^ k" using n False by simp
    ultimately have "n div 2 ^ k = 1" by simp
    then show ?thesis using False by (simp add: bit_iff_odd)
  qed
qed

lemma bit_nat_sub_pow: "2 ^ k \<le> n \<Longrightarrow> n < 2 ^ Suc k \<Longrightarrow> b < k \<Longrightarrow> bit (n - 2 ^ k) b = bit n b" for n :: nat
proof -
  assume a: "2 ^ k \<le> n" "n < 2 ^ Suc k" "b < k"
  have "take_bit k (n - 2 ^ k) = take_bit k n"
    using a(1) by (simp add: take_bit_eq_mod le_mod_geq)
  then have "bit (take_bit k (n - 2 ^ k)) b = bit (take_bit k n) b" by simp
  then show ?thesis using a(3) by (simp add: bit_take_bit_iff)
qed

lemma msb_table_loop_inv:
  assumes c: "\<And>j. c j = ((msb_step poly ms_bit result_mask) ^^ Suc j) ms_bit"
  shows "d + k = 8 \<Longrightarrow> length table = 256 \<Longrightarrow> (\<forall>n<2 ^ k. table ! n = xor_bits c [0..<k] n) \<Longrightarrow>
     crc = ((msb_step poly ms_bit result_mask) ^^ k) ms_bit \<Longrightarrow>
     length (msb_table_loop poly ms_bit result_mask (2 ^ k) crc table) = 256 \<and>
     (\<forall>n<256. msb_table_loop poly ms_bit result_mask (2 ^ k) crc table ! n = xor_bits c [0..<8] n)"
proof (induction d arbitrary: k crc table)
  case 0
  then have k: "k = 8" by simp
  show ?case using 0 unfolding k by (subst (1 2) msb_table_loop.simps) simp
next
  case (Suc d)
  then have k: "k < 8" by simp
  then have "(2::nat) ^ k \<le> 2 ^ 7" by (intro power_increasing) simp_all
  then have i: "(2::nat) ^ k \<le> 128" "0 < (2::nat) ^ k" by simp_all
  let ?crc = "msb_step poly ms_bit result_mask crc"
  let ?t = "msb_fill (2 ^ k) ?crc table"
  have ck: "?crc = c k" using Suc.prems(4) by (simp add: c)
  have len: "2 * 2 ^ k \<le> length table" using i Suc.prems(2) by simp
  have unf: "msb_table_loop poly ms_bit result_mask (2 ^ k) crc table =
      msb_table_loop poly ms_bit result_mask (2 ^ Suc k) ?crc ?t"
    using i by (subst msb_table_loop.simps) (simp add: msb_step_def Let_def mult.commute)
  have inv: "\<forall>n<2 ^ Suc k. ?t ! n = xor_bits c [0..<Suc k] n"
  proof (intro allI impI)
    fix n :: nat assume n: "n < 2 ^ Suc k"
    then have nl: "n < length table" using len by simp
    show "?t ! n = xor_bits c [0..<Suc k] n"
    proof (cases "n < 2 ^ k")
      case True
      then have "\<not> bit n k" using n by (simp add: bit_nat_high)
      then show ?thesis using True Suc.prems(3) len nl
        by (simp add: msb_fill_nth xor_bits_append)
    next
      case False
      then have b: "bit n k" using n by (simp add: bit_nat_high)
      have lt: "n - 2 ^ k < 2 ^ k" using n False by simp
      have "xor_bits c [0..<k] (n - 2 ^ k) = xor_bits c [0..<k] n"
        using False n by (intro xor_bits_cong) (simp add: bit_nat_sub_pow)
      then show ?thesis using False n b Suc.prems(3) len nl lt
        by (simp add: msb_fill_nth xor_bits_append ck ac_simps)
    qed
  qed
  have "length ?t = 256" using len Suc.prems(2) by (simp add: length_msb_fill)
  moreover have "d + Suc k = 8" using Suc.prems(1) by simp
  moreover have "?crc = ((msb_step poly ms_bit result_mask) ^^ Suc k) ms_bit"
    using Suc.prems(4) by simp
  ultimately show ?case unfolding unf using inv by (intro Suc.IH) 
qed


lemma create_msb_table_entries:
  assumes "1 \<le> width"
  defines "ms_bit \<equiv> push_bit (nat (width - 1)) 1"
  defines "result_mask \<equiv> push_bit (nat width) 1 - 1"
  shows "\<exists>t. create_msb_table poly width = Inr t \<and> length t = 256 \<and>
     (\<forall>n<256. t ! n = xor_bits (\<lambda>j. ((msb_step poly ms_bit result_mask) ^^ Suc j) ms_bit) [0..<8] n)"
proof -
  let ?c = "\<lambda>j. ((msb_step poly ms_bit result_mask) ^^ Suc j) ms_bit"
  have e: "create_msb_table poly width =
      Inr (msb_table_loop poly ms_bit result_mask (2 ^ 0) ms_bit (replicate 256 0))"
    using assms(1) by (simp add: create_msb_table_def bind_def lshift_def ms_bit_def result_mask_def)
  have "length (msb_table_loop poly ms_bit result_mask (2 ^ 0) ms_bit (replicate 256 0)) = 256 \<and>
     (\<forall>n<256. msb_table_loop poly ms_bit result_mask (2 ^ 0) ms_bit (replicate 256 0) ! n
        = xor_bits ?c [0..<8] n)"
    by (rule msb_table_loop_inv[where d = 8]) simp_all
  then show ?thesis unfolding e by blast
qed

lemma xor_linear_table:
  assumes "\<forall>n<256. t ! n = xor_bits c bs n" "i < 256" "j < 256"
  shows "t ! (i XOR j) = t ! i XOR t ! j"
  using assms xor_nat_less_256[of i j] by (simp add: xor_bits_linear)

lemma lsb_fill_partial:
  assumes i: "0 < i"
  shows "m * (2 * i) \<le> length table \<Longrightarrow>
    length (fold (\<lambda>j t. t[i + j := crc XOR t ! j]) (map (\<lambda>q. q * (2 * i)) [0..<m]) table) = length table \<and>
    (\<forall>n<length table. fold (\<lambda>j t. t[i + j := crc XOR t ! j]) (map (\<lambda>q. q * (2 * i)) [0..<m]) table ! n =
       (if n mod (2 * i) = i \<and> n < m * (2 * i) then crc XOR table ! (n - i) else table ! n))"
proof (induction m)
  case 0 then show ?case by simp
next
  case (Suc m)
  let ?T = "fold (\<lambda>j t. t[i + j := crc XOR t ! j]) (map (\<lambda>q. q * (2 * i)) [0..<m]) table"
  have le: "m * (2 * i) \<le> length table" "m * (2 * i) < length table" "i + m * (2 * i) < length table"
    using Suc.prems i by simp_all
  have IH: "length ?T = length table"
    "\<And>n. n < length table \<Longrightarrow> ?T ! n = (if n mod (2 * i) = i \<and> n < m * (2 * i) then crc XOR table ! (n - i) else table ! n)"
    using Suc.IH[OF le(1)] by simp_all
  have step: "fold (\<lambda>j t. t[i + j := crc XOR t ! j]) (map (\<lambda>q. q * (2 * i)) [0..<Suc m]) table
      = ?T[i + m * (2 * i) := crc XOR ?T ! (m * (2 * i))]"
    by simp
  have rd: "?T ! (m * (2 * i)) = table ! (m * (2 * i))"
    using IH(2)[OF le(2)] i by simp
  show ?case unfolding step rd
  proof (intro conjI allI impI)
    show "length (?T[i + m * (2 * i) := crc XOR table ! (m * (2 * i))]) = length table"
      using IH(1) by simp
  next
    fix n assume n: "n < length table"
    show "?T[i + m * (2 * i) := crc XOR table ! (m * (2 * i))] ! n =
         (if n mod (2 * i) = i \<and> n < Suc m * (2 * i) then crc XOR table ! (n - i) else table ! n)"
    proof (cases "n = i + m * (2 * i)")
      case True
      then have "n mod (2 * i) = i" "n < Suc m * (2 * i)" "n - i = m * (2 * i)" using i by simp_all
      then show ?thesis using True n IH(1) by simp
    next
      case False
      have "(n mod (2 * i) = i \<and> n < Suc m * (2 * i)) \<longleftrightarrow> (n mod (2 * i) = i \<and> n < m * (2 * i))"
      proof
        assume a: "n mod (2 * i) = i \<and> n < Suc m * (2 * i)"
        have "n < m * (2 * i)"
        proof (rule ccontr)
          assume "\<not> n < m * (2 * i)"
          then have "(2 * i) * m \<le> n" "n < (2 * i) * Suc m" using a by (simp_all add: mult.commute)
          then have "n div (2 * i) = m" by (rule div_nat_eqI)
          then have "n = m * (2 * i) + i" using a div_mult_mod_eq[of n "2 * i"] by simp
          then show False using False by simp
        qed
        then show "n mod (2 * i) = i \<and> n < m * (2 * i)" using a by simp
      next
        assume "n mod (2 * i) = i \<and> n < m * (2 * i)"
        then show "n mod (2 * i) = i \<and> n < Suc m * (2 * i)" by simp
      qed
      then show ?thesis using False n IH by simp
    qed
  qed
qed

lemma range_step_pow: "k \<le> 7 \<Longrightarrow> range_step 256 (2 * 2 ^ k) = map (\<lambda>q. q * (2 * 2 ^ k)) [0..<2 ^ (7 - k)]"
proof -
  assume k: "k \<le> 7"
  define s :: nat where "s = 2 * 2 ^ k"
  have s: "0 < s" by (simp add: s_def)
  have "(2::nat) ^ (7 - k) * 2 ^ Suc k = 2 ^ (7 - k + Suc k)" by (simp only: power_add)
  also have "7 - k + Suc k = 8" using k by simp
  finally have q: "(256::nat) = 2 ^ (7 - k) * s" by (simp add: s_def)
  have "256 + s - 1 = (s - 1) + 2 ^ (7 - k) * s" using s q by simp
  then have "(256 + s - 1) div s = 2 ^ (7 - k) + (s - 1) div s"
    using s by (simp only: div_mult_self1) 
  then have "(256 + s - 1) div s = 2 ^ (7 - k)" using s by simp
  then show ?thesis unfolding s_def[symmetric] by (simp add: range_step_def)
qed

lemma lsb_fill_nth:
  assumes "k \<le> 7" "length table = 256" "n < 256"
  shows "lsb_fill (2 ^ k) crc table ! n =
           (if n mod (2 * 2 ^ k) = 2 ^ k then crc XOR table ! (n - 2 ^ k) else table ! n)"
    and "length (lsb_fill (2 ^ k) crc table) = 256"
proof -
  have "(2::nat) ^ (7 - k) * 2 ^ Suc k = 2 ^ (7 - k + Suc k)" by (simp only: power_add)
  also have "7 - k + Suc k = 8" using assms(1) by simp
  finally have q: "2 ^ (7 - k) * (2 * 2 ^ k) = (256::nat)" by simp
  then have le: "2 ^ (7 - k) * (2 * 2 ^ k) \<le> length table" using assms(2) by simp
  have p: "0 < (2::nat) ^ k" by simp
  note r = lsb_fill_partial[OF p le, of crc, folded range_step_pow[OF assms(1)], folded lsb_fill_def]
  show "length (lsb_fill (2 ^ k) crc table) = 256" using r assms(2) by simp
  show "lsb_fill (2 ^ k) crc table ! n =
           (if n mod (2 * 2 ^ k) = 2 ^ k then crc XOR table ! (n - 2 ^ k) else table ! n)"
    using r assms(2,3) q by simp
qed

lemma lsbf_rounds_Suc_end:
  "lsbf_rounds (Suc n) poly crc =
     (let c = lsbf_rounds n poly crc in if c AND 1 \<noteq> 0 then drop_bit 1 c XOR poly else drop_bit 1 c)"
  by (induction n arbitrary: crc) (simp_all add: Let_def)

lemma take_bit_Suc_zero_iff:
  "take_bit k n = 0 \<Longrightarrow> take_bit (Suc k) n = (if bit n k then 2 ^ k else 0)" for n :: nat
  by (simp add: take_bit_Suc_from_most)

lemma sub_pow_unset: "bit n k \<Longrightarrow> n - 2 ^ k = unset_bit k n" for n :: nat
proof -
  assume b: "bit n k"
  have "int (unset_bit k n) = unset_bit k (int n)" by (simp add: of_nat_unset_bit_eq)
  also have "\<dots> = int n - int (2 ^ k)" using b by (simp add: unset_bit_eq bit_of_nat_iff_bit)
  finally show ?thesis by linarith
qed

lemma lsb_fill_inv:
  assumes k: "k \<le> 7" and len: "length table = 256"
    and P: "\<forall>n<256. take_bit (Suc k) n = 0 \<longrightarrow> table ! n = xor_bits c [Suc k..<8] n"
  shows "\<forall>n<256. take_bit k n = 0 \<longrightarrow> lsb_fill (2 ^ k) (c k) table ! n = xor_bits c [k..<8] n"
proof (intro allI impI)
  fix n :: nat assume n: "n < 256" and z: "take_bit k n = 0"
  have u: "[k..<8] = k # [Suc k..<8]" using k by (simp add: upt_conv_Cons)
  have m: "n mod (2 * 2 ^ k) = take_bit (Suc k) n" by (simp add: take_bit_eq_mod)
  show "lsb_fill (2 ^ k) (c k) table ! n = xor_bits c [k..<8] n"
  proof (cases "bit n k")
    case True
    let ?n' = "unset_bit k n"
    have n': "n - 2 ^ k = ?n'" using True by (rule sub_pow_unset)
    have "?n' \<le> n" using n' by (metis diff_le_self)
    then have lt: "?n' < 256" using n by simp
    have "take_bit (Suc k) ?n' = 0"
    proof (rule bit_eqI)
      fix j
      have "bit (take_bit k n) j = False" unfolding z by simp
      then have "j < k \<Longrightarrow> \<not> bit n j" by (simp add: bit_take_bit_iff)
      then show "bit (take_bit (Suc k) ?n') j = bit (0::nat) j"
        by (auto simp add: bit_take_bit_iff bit_unset_bit_iff less_Suc_eq)
    qed
    then have t: "table ! ?n' = xor_bits c [Suc k..<8] ?n'" using P lt by simp
    have "xor_bits c [Suc k..<8] ?n' = xor_bits c [Suc k..<8] n"
      by (rule xor_bits_cong) (simp add: bit_unset_bit_iff)
    then show ?thesis using True n len k z t
      by (simp add: lsb_fill_nth m take_bit_Suc_zero_iff u n')
  next
    case False
    then have "take_bit (Suc k) n = 0" using z by (simp add: take_bit_Suc_zero_iff)
    then show ?thesis using False n len k P
      by (simp add: lsb_fill_nth m u)
  qed
qed

lemma lsb_table_loop_inv:
  "k \<le> 7 \<Longrightarrow> length table = 256 \<Longrightarrow>
   (\<forall>n<256. take_bit (Suc k) n = 0 \<longrightarrow> table ! n = xor_bits (lsb_entry poly) [Suc k..<8] n) \<Longrightarrow>
   crc = lsbf_rounds (7 - k) poly 1 \<Longrightarrow>
   length (lsb_table_loop poly (2 ^ k) crc table) = 256 \<and>
   (\<forall>n<256. lsb_table_loop poly (2 ^ k) crc table ! n = xor_bits (lsb_entry poly) [0..<8] n)"
proof (induction k arbitrary: crc table)
  case 0
  let ?crc = "if crc AND 1 \<noteq> 0 then drop_bit 1 crc XOR poly else drop_bit 1 crc"
  have c: "?crc = lsb_entry poly 0"
    unfolding lsb_entry_def using 0(4) lsbf_rounds_Suc_end[of 7 poly 1] by (simp add: Let_def)
  have unf: "lsb_table_loop poly (2 ^ 0) crc table = lsb_fill (2 ^ 0) ?crc table"
    by (subst lsb_table_loop.simps, subst lsb_table_loop.simps) (simp add: Let_def)
  show ?case unfolding unf c
    using lsb_fill_inv[OF 0(1) 0(2) 0(3)] lsb_fill_nth(2)[OF 0(1) 0(2), of 0] by simp
next
  case (Suc k)
  let ?crc = "if crc AND 1 \<noteq> 0 then drop_bit 1 crc XOR poly else drop_bit 1 crc"
  have e: "8 - Suc k = Suc (7 - Suc k)" using Suc.prems(1) by simp
  have c: "?crc = lsb_entry poly (Suc k)"
    unfolding lsb_entry_def e using Suc.prems(4) lsbf_rounds_Suc_end[of "7 - Suc k" poly 1]
    by (simp add: Let_def)
  have unf: "lsb_table_loop poly (2 ^ Suc k) crc table =
     lsb_table_loop poly (2 ^ k) ?crc (lsb_fill (2 ^ Suc k) ?crc table)"
    by (subst lsb_table_loop.simps) (simp add: Let_def drop_bit_eq_div)
  have k: "k \<le> 7" using Suc.prems(1) by simp
  have "7 - k = Suc (7 - Suc k)" using Suc.prems(1) by simp
  then have r: "?crc = lsbf_rounds (7 - k) poly 1"
    using c e by (simp only: lsb_entry_def)
  show ?case unfolding unf
    using Suc.IH[OF k lsb_fill_nth(2)[OF Suc.prems(1) Suc.prems(2), of 0]
        lsb_fill_inv[OF Suc.prems(1) Suc.prems(2) Suc.prems(3), unfolded c[symmetric]] r]
    by simp
qed

lemma create_lsb_table_entries:
  "length (create_lsb_table poly width) = 256 \<and>
   (\<forall>n<256. create_lsb_table poly width ! n
       = xor_bits (lsb_entry (bit_reverse_n poly width)) [0..<8] n)"
proof -
  have P: "\<forall>n<256. take_bit (Suc 7) n = 0 \<longrightarrow>
     replicate 256 (0::int) ! n = xor_bits (lsb_entry (bit_reverse_n poly width)) [Suc 7..<8] n"
    by simp
  have "(128::nat) = 2 ^ 7" by simp
  then show ?thesis unfolding create_lsb_table_def
    using lsb_table_loop_inv[of 7 "replicate 256 0" "bit_reverse_n poly width" 1, OF _ _ P]
    by simp
qed


text \<open>
  C2. For every width of at least 1 and every polynomial (whether or not it fits in \<open>width\<close>
  bits), \<open>create_msb_table\<close> returns a table of 256 entries and so does \<open>create_lsb_table\<close>,
  and both tables are XOR-linear: for all indices \<open>i\<close>, \<open>j\<close> below 256,
  \<open>table[i ^ j] == table[i] ^ table[j]\<close>.
\<close>

theorem tables_xor_linear:
  "1 \<le> width \<Longrightarrow>
   (\<exists>t. create_msb_table poly width = Inr t \<and> length t = 256 \<and>
        (\<forall>i<256. \<forall>j<256. t ! (i XOR j) = t ! i XOR t ! j)) \<and>
   length (create_lsb_table poly width) = 256 \<and>
   (\<forall>i<256. \<forall>j<256. create_lsb_table poly width ! (i XOR j)
        = create_lsb_table poly width ! i XOR create_lsb_table poly width ! j)"
proof -
  assume w: "1 \<le> width"
  obtain t c where t: "create_msb_table poly width = Inr t" "length t = 256"
      "\<forall>n<256. t ! n = xor_bits c [0..<8] n"
    using create_msb_table_entries[OF w, of poly] by blast
  have m: "\<forall>i<256. \<forall>j<256. t ! (i XOR j) = t ! i XOR t ! j"
    using xor_linear_table[OF t(3)] by blast
  have l: "\<forall>i<256. \<forall>j<256. create_lsb_table poly width ! (i XOR j)
        = create_lsb_table poly width ! i XOR create_lsb_table poly width ! j"
    using xor_linear_table[of "create_lsb_table poly width"] create_lsb_table_entries[of poly width]
    by blast
  show ?thesis using t(1,2) m l create_lsb_table_entries[of poly width] by blast
qed

theorem tables_xor_linear_witness:
  "(1::int) \<le> 8 \<and>
   (\<exists>t. create_msb_table 7 8 = Inr t \<and> length t = 256 \<and> t ! (5 XOR 9) = t ! 5 XOR t ! 9) \<and>
   length (create_lsb_table 7 8) = 256 \<and>
   create_lsb_table 7 8 ! (5 XOR 9) = create_lsb_table 7 8 ! 5 XOR create_lsb_table 7 8 ! 9"
proof -
  have a: "(5::nat) < 256" "(9::nat) < 256" by simp_all
  have h: "(1::int) \<le> 8" by simp
  show ?thesis using tables_xor_linear[OF h, of 7] a h by blast
qed

section \<open>The windowed engine on the empty buffer\<close>

text \<open>
  C10. On the empty byte string the windowed engine's \<open>calculate\<close> raises \<open>ValueError\<close>
  whatever the engine's parameters and whatever \<open>start_bit\<close>, \<open>length_bits\<close> and \<open>seed\<close>
  are (the defaults included): \<open>num_input_bits\<close> is 0, so one of \<open>start_bit >= 0\<close> and
  \<open>start_bit < 0\<close> holds and the first range check fires. No CRC value is returned.
\<close>

theorem windowed_empty_raises:
  "CrcWindowed_calculate e [] start_bit length_bits seed = Inl ValueError"
  by (simp add: CrcWindowed_calculate_def Let_def)


section \<open>What the constructors check\<close>

text \<open>
  C9 as stated fails: no constructor compares the polynomial, the seed or \<open>xor_out\<close> with
  the width, and a width of 0 is accepted by \<open>create\<close> with \<open>ref_in\<close> set, by
  \<open>create_generic\<close> and by the windowed constructor. The engines below are constructed
  although the polynomial 511, the seed 256 and the \<open>xor_out\<close> 256 do not fit in 8 bits, or
  although the width is 0.
\<close>

theorem construction_unchecked_counterexample:
  "\<not> isl (create 511 8 0 True True 0) \<and>
   \<not> isl (create 7 8 256 False False 256) \<and>
   \<not> isl (create 0 0 0 True True 0) \<and>
   create_generic 511 8 256 True True 256 =
     Inr \<lparr>gen_poly = 511, gen_width = 8, gen_default_seed = 256, gen_xor_out = 256,
          gen_result_mask = 255, gen_crc_lshift = 0, gen_msb_lshift = 0, gen_msbit_mask = 128,
          gen_crc_mask = 255, gen_ref_in = True, gen_ref_out = True\<rparr> \<and>
   create_generic 0 0 0 True True 0 =
     Inr \<lparr>gen_poly = 0, gen_width = 0, gen_default_seed = 0, gen_xor_out = 0,
          gen_result_mask = 0, gen_crc_lshift = 8, gen_msb_lshift = 0, gen_msbit_mask = 128,
          gen_crc_mask = 255, gen_ref_in = True, gen_ref_out = True\<rparr> \<and>
   create_windowed_todo \<lparr>params_polynomial = 511, params_width = 0, params_seed = 256,
       params_reflect_in = False, params_reflect_out = False, params_xor_out = 256\<rparr> =
     Inr \<lparr>win_poly = 511, win_width = 0, win_default_seed = 256, win_xor_out = 256,
          win_result_mask = 0, win_crc_lshift = 8, win_msb_lshift = 0, win_msbit_mask = 128,
          win_crc_mask = 255, win_ref_in = False, win_ref_out = False\<rparr>"
  by (simp add: create_def create_generic_def create_windowed_todo_def CrcLsbfTable_init_def
      CrcMsbfTable_init_def CrcGeneric_init_def CrcWindowed_init_def create_msb_table_def
      bind_def lshift_def Let_def)

text \<open>
  C9, amended. A constructor raises exactly when it shifts by a negative count, and then it
  raises \<open>ValueError\<close>: \<open>create\<close> with \<open>ref_in\<close> set, \<open>create_generic\<close> and the windowed
  constructor fail exactly for a negative width, \<open>create\<close> without \<open>ref_in\<close> exactly for
  a width of at most 0. The polynomial, the seed and \<open>xor_out\<close> play no part in it.
\<close>

theorem construction_fails_iff:
  "(create poly width seed ref_in ref_out xor_out = Inl ValueError
      \<longleftrightarrow> (if ref_in then width < 0 else width \<le> 0)) \<and>
   (isl (create poly width seed ref_in ref_out xor_out)
      \<longleftrightarrow> (if ref_in then width < 0 else width \<le> 0)) \<and>
   (create_generic poly width seed ref_in ref_out xor_out = Inl ValueError \<longleftrightarrow> width < 0) \<and>
   (isl (create_generic poly width seed ref_in ref_out xor_out) \<longleftrightarrow> width < 0) \<and>
   (create_windowed_todo params = Inl ValueError \<longleftrightarrow> params_width params < 0) \<and>
   (isl (create_windowed_todo params) \<longleftrightarrow> params_width params < 0)"
  by (simp add: create_def create_generic_def create_windowed_todo_def CrcLsbfTable_init_def
      CrcMsbfTable_init_def CrcGeneric_init_def CrcWindowed_init_def create_msb_table_def
      bind_def lshift_def Let_def)

theorem construction_fails_iff_witness:
  "create 7 (-1) 0 True True 0 = Inl ValueError \<and>
   create 7 0 0 False True 0 = Inl ValueError \<and>
   \<not> isl (create 7 0 0 True True 0) \<and>
   \<not> isl (create 7 8 0 False True 0) \<and>
   create_generic 7 (-1) 0 True True 0 = Inl ValueError \<and>
   \<not> isl (create_generic 7 0 0 True True 0) \<and>
   create_windowed_todo \<lparr>params_polynomial = 7, params_width = - 1, params_seed = 0,
       params_reflect_in = False, params_reflect_out = False, params_xor_out = 0\<rparr> = Inl ValueError \<and>
   \<not> isl (create_windowed_todo \<lparr>params_polynomial = 7, params_width = 0, params_seed = 0,
       params_reflect_in = False, params_reflect_out = False, params_xor_out = 0\<rparr>)"
  using construction_fails_iff[of 7 "-1" 0 True True 0 "\<lparr>params_polynomial = 7, params_width = - 1, params_seed = 0,
       params_reflect_in = False, params_reflect_out = False, params_xor_out = 0\<rparr>"]
    construction_fails_iff[of 7 0 0 False True 0 "\<lparr>params_polynomial = 7, params_width = 0, params_seed = 0,
       params_reflect_in = False, params_reflect_out = False, params_xor_out = 0\<rparr>"]
    construction_fails_iff[of 7 0 0 True True 0]
    construction_fails_iff[of 7 8 0 False True 0]
  by simp


section \<open>The empty input\<close>

lemma CrcGeneric_init_Inr:
  "CrcGeneric_init poly width seed ref_in ref_out xor_out = Inr e \<longleftrightarrow>
     0 \<le> width \<and>
     e = \<lparr>gen_poly = poly, gen_width = width, gen_default_seed = seed, gen_xor_out = xor_out,
          gen_result_mask = 2 ^ nat width - 1,
          gen_crc_lshift = (if width < 8 then 8 - width else 0),
          gen_msb_lshift = (if width < 8 then 0 else width - 8),
          gen_msbit_mask = 2 ^ nat (if width < 8 then 7 else width - 1),
          gen_crc_mask = 2 ^ nat (if width < 8 then 8 else width) - 1,
          gen_ref_in = ref_in, gen_ref_out = ref_out\<rparr>"
  by (auto simp add: CrcGeneric_init_def bind_def lshift_def Let_def)

lemma generic_empty:
  assumes "create_generic poly width seed ref_in ref_out xor_out = Inr e"
  shows "CrcGeneric_calculate e [] s =
     Inr ((if ref_out then bit_reverse_n (case s of None \<Rightarrow> seed | Some x \<Rightarrow> x) width
           else (case s of None \<Rightarrow> seed | Some x \<Rightarrow> x)) XOR xor_out)"
  using assms unfolding create_generic_def CrcGeneric_init_Inr
  by (cases s) (auto simp add: CrcGeneric_calculate_def bind_def lshift_def rshift_def Let_def
      drop_bit_push_bit)

lemma lsbf_table_empty:
  assumes "create poly width seed True ref_out xor_out = Inr e"
  shows "calculate e [] =
     Inr ((if ref_out then bit_reverse_n seed width else take_bit (nat width) seed) XOR xor_out)"
  using assms
  by (auto simp add: create_def CrcLsbfTable_init_def bind_def lshift_def
      CrcLsbfTable_calculate_def bit_reverse_n_twice split: if_splits)

lemma msbf_table_empty:
  assumes "create poly width seed False ref_out xor_out = Inr e"
  shows "calculate e [] = Inr ((if ref_out then bit_reverse_n seed width else seed) XOR xor_out)"
  using assms
  by (auto simp add: create_def CrcMsbfTable_init_def bind_def lshift_def create_msb_table_def
      CrcMsbfTable_calculate_def Let_def split: if_splits)

lemma generic_lsbf_empty:
  assumes "create_generic_lsbf poly width seed ref_in ref_out xor_out = Inr e"
  shows "CrcGenericLsbf_calculate e [] s =
     Inr ((if ref_out then bit_reverse_n (case s of None \<Rightarrow> seed | Some x \<Rightarrow> x) width
           else (case s of None \<Rightarrow> seed | Some x \<Rightarrow> x)) XOR xor_out)"
  using assms
  by (cases s) (auto simp add: create_generic_lsbf_def CrcGenericLsbf_init_def bind_def lshift_def
      CrcGenericLsbf_calculate_def Let_def split: if_splits)

text \<open>
  C7 as stated fails: with \<open>ref_out\<close> set the register is bit-reversed before the final
  XOR. The generic engine of width 8 with seed 1 and \<open>xor_out\<close> 0 returns 128 on the empty
  input, not \<open>1 ^ 0\<close>.
\<close>

theorem empty_input_counterexample:
  "create_generic 7 8 1 False True 0 =
     Inr \<lparr>gen_poly = 7, gen_width = 8, gen_default_seed = 1, gen_xor_out = 0,
          gen_result_mask = 255, gen_crc_lshift = 0, gen_msb_lshift = 0, gen_msbit_mask = 128,
          gen_crc_mask = 255, gen_ref_in = False, gen_ref_out = True\<rparr> \<and>
   CrcGeneric_calculate
      \<lparr>gen_poly = 7, gen_width = 8, gen_default_seed = 1, gen_xor_out = 0,
          gen_result_mask = 255, gen_crc_lshift = 0, gen_msb_lshift = 0, gen_msbit_mask = 128,
          gen_crc_mask = 255, gen_ref_in = False, gen_ref_out = True\<rparr> [] None = Inr 128 \<and>
   (128 :: int) \<noteq> 1 XOR 0"
  by (simp add: create_generic_def CrcGeneric_init_def CrcGeneric_calculate_def bind_def
      lshift_def rshift_def eval_rev)

text \<open>
  C7, amended. On the empty byte sequence an engine returns its seed, passed through the
  engine's output reflection, XOR \<open>xor_out\<close>: \<open>bit_reverse_n(seed, width) ^ xor_out\<close> when
  \<open>ref_out\<close> is set and \<open>seed ^ xor_out\<close> when it is not. This holds for the table-driven
  engine of either bit order and for both bit-by-bit engines; the LSB-first table engine
  without \<open>ref_out\<close> reverses the seed twice, which leaves the low \<open>width\<close> bits of the seed.
  The windowed engine raises \<open>ValueError\<close> on the empty input.
\<close>

theorem empty_input_result:
  "(create poly width seed True ref_out xor_out = Inr t \<longrightarrow>
      calculate t [] =
        Inr ((if ref_out then bit_reverse_n seed width else take_bit (nat width) seed) XOR xor_out)) \<and>
   (create poly width seed False ref_out xor_out = Inr t' \<longrightarrow>
      calculate t' [] = Inr ((if ref_out then bit_reverse_n seed width else seed) XOR xor_out)) \<and>
   (create_generic poly width seed ref_in ref_out xor_out = Inr g \<longrightarrow>
      CrcGeneric_calculate g [] None =
        Inr ((if ref_out then bit_reverse_n seed width else seed) XOR xor_out)) \<and>
   (create_generic_lsbf poly width seed ref_in ref_out xor_out = Inr l \<longrightarrow>
      CrcGenericLsbf_calculate l [] None =
        Inr ((if ref_out then bit_reverse_n seed width else seed) XOR xor_out)) \<and>
   CrcWindowed_calculate w [] 0 None None = Inl ValueError"
  using lsbf_table_empty[of poly width seed ref_out xor_out t]
    msbf_table_empty[of poly width seed ref_out xor_out t']
    generic_empty[of poly width seed ref_in ref_out xor_out g None]
    generic_lsbf_empty[of poly width seed ref_in ref_out xor_out l None]
  by (simp add: CrcWindowed_calculate_def Let_def)


theorem empty_input_result_witness:
  "create 7 8 1 True False 0 =
     Inr (Lsbf \<lparr>lsbf_table = create_lsb_table 7 8, lsbf_seed = 1, lsbf_width = 8,
                lsbf_xor_out = 0, lsbf_result_mask = 255, lsbf_reverse_result = True\<rparr>) \<and>
   calculate (Lsbf \<lparr>lsbf_table = create_lsb_table 7 8, lsbf_seed = 1, lsbf_width = 8,
                lsbf_xor_out = 0, lsbf_result_mask = 255, lsbf_reverse_result = True\<rparr>) [] = Inr 1 \<and>
   create 7 8 1 False True 0 =
     Inr (Msbf \<lparr>msbf_table = msb_table_loop 7 128 255 1 128 (replicate 256 0), msbf_seed = 1,
                msbf_width = 8, msbf_xor_out = 0, msbf_result_mask = 255, msbf_msb_lshift = 0,
                msbf_reverse_result = True\<rparr>) \<and>
   calculate (Msbf \<lparr>msbf_table = msb_table_loop 7 128 255 1 128 (replicate 256 0), msbf_seed = 1,
                msbf_width = 8, msbf_xor_out = 0, msbf_result_mask = 255, msbf_msb_lshift = 0,
                msbf_reverse_result = True\<rparr>) [] = Inr 128 \<and>
   create_generic 7 8 1 False True 0 =
     Inr \<lparr>gen_poly = 7, gen_width = 8, gen_default_seed = 1, gen_xor_out = 0,
          gen_result_mask = 255, gen_crc_lshift = 0, gen_msb_lshift = 0, gen_msbit_mask = 128,
          gen_crc_mask = 255, gen_ref_in = False, gen_ref_out = True\<rparr> \<and>
   CrcGeneric_calculate
      \<lparr>gen_poly = 7, gen_width = 8, gen_default_seed = 1, gen_xor_out = 0,
          gen_result_mask = 255, gen_crc_lshift = 0, gen_msb_lshift = 0, gen_msbit_mask = 128,
          gen_crc_mask = 255, gen_ref_in = False, gen_ref_out = True\<rparr> [] None = Inr 128 \<and>
   create_generic_lsbf 7 8 1 False True 0 =
     Inr \<lparr>glsbf_poly = 7, glsbf_width = 8, glsbf_seed = 1, glsbf_xor_out = 0,
          glsbf_result_mask = 255, glsbf_msbit = 128, glsbf_msb_lshift = 0,
          glsbf_ref_in = False, glsbf_ref_out = True\<rparr> \<and>
   CrcGenericLsbf_calculate
      \<lparr>glsbf_poly = 7, glsbf_width = 8, glsbf_seed = 1, glsbf_xor_out = 0,
          glsbf_result_mask = 255, glsbf_msbit = 128, glsbf_msb_lshift = 0,
          glsbf_ref_in = False, glsbf_ref_out = True\<rparr> [] None = Inr 128"
proof -
  have r: "bit_reverse_n 1 8 = 128" by (simp add: eval_rev)
  have a: "create 7 8 1 True False 0 =
     Inr (Lsbf \<lparr>lsbf_table = create_lsb_table 7 8, lsbf_seed = 1, lsbf_width = 8,
                lsbf_xor_out = 0, lsbf_result_mask = 255, lsbf_reverse_result = True\<rparr>)"
    by (simp add: create_def CrcLsbfTable_init_def bind_def lshift_def)
  have b: "create 7 8 1 False True 0 =
     Inr (Msbf \<lparr>msbf_table = msb_table_loop 7 128 255 1 128 (replicate 256 0), msbf_seed = 1,
                msbf_width = 8, msbf_xor_out = 0, msbf_result_mask = 255, msbf_msb_lshift = 0,
                msbf_reverse_result = True\<rparr>)"
    by (simp add: create_def CrcMsbfTable_init_def create_msb_table_def bind_def lshift_def)
  have c: "create_generic 7 8 1 False True 0 =
     Inr \<lparr>gen_poly = 7, gen_width = 8, gen_default_seed = 1, gen_xor_out = 0,
          gen_result_mask = 255, gen_crc_lshift = 0, gen_msb_lshift = 0, gen_msbit_mask = 128,
          gen_crc_mask = 255, gen_ref_in = False, gen_ref_out = True\<rparr>"
    by (simp add: create_generic_def CrcGeneric_init_def bind_def lshift_def)
  have d: "create_generic_lsbf 7 8 1 False True 0 =
     Inr \<lparr>glsbf_poly = 7, glsbf_width = 8, glsbf_seed = 1, glsbf_xor_out = 0,
          glsbf_result_mask = 255, glsbf_msbit = 128, glsbf_msb_lshift = 0,
          glsbf_ref_in = False, glsbf_ref_out = True\<rparr>"
    by (simp add: create_generic_lsbf_def CrcGenericLsbf_init_def bind_def lshift_def)
  note i1 = empty_input_result[where poly = 7 and width = 8 and seed = 1 and ref_out = False
      and xor_out = 0, THEN conjunct1, THEN mp, OF a]
  note i2 = empty_input_result[where poly = 7 and width = 8 and seed = 1 and ref_out = True
      and xor_out = 0 and ref_in = False, THEN conjunct2]
  note i3 = i2[THEN conjunct1, THEN mp, OF b] i2[THEN conjunct2, THEN conjunct1, THEN mp, OF c]
    i2[THEN conjunct2, THEN conjunct2, THEN conjunct1, THEN mp, OF d]
  have "calculate (Lsbf \<lparr>lsbf_table = create_lsb_table 7 8, lsbf_seed = 1, lsbf_width = 8,
                lsbf_xor_out = 0, lsbf_result_mask = 255, lsbf_reverse_result = True\<rparr>) [] = Inr 1"
    using i1 by simp
  then show ?thesis using i3 a b c d by (simp only: r if_True xor.right_neutral simp_thms)
qed


section \<open>The windowed engine: rounds, range and whole bytes\<close>

lemma CrcWindowed_init_Inr:
  "CrcWindowed_init params = Inr e \<longleftrightarrow>
     0 \<le> params_width params \<and>
     e = \<lparr>win_poly = params_polynomial params, win_width = params_width params,
          win_default_seed = params_seed params, win_xor_out = params_xor_out params,
          win_result_mask = 2 ^ nat (params_width params) - 1,
          win_crc_lshift = (if params_width params < 8 then 8 - params_width params else 0),
          win_msb_lshift = (if params_width params < 8 then 0 else params_width params - 8),
          win_msbit_mask = 2 ^ nat (if params_width params < 8 then 7 else params_width params - 1),
          win_crc_mask = 2 ^ nat (if params_width params < 8 then 8 else params_width params) - 1,
          win_ref_in = params_reflect_in params, win_ref_out = params_reflect_out params\<rparr>"
  by (auto simp add: CrcWindowed_init_def bind_def lshift_def Let_def)

lemma low_zero_iff: "take_bit z x = 0 \<longleftrightarrow> (\<forall>j<z. \<not> bit x j)" for x :: int
  by (auto simp add: bit_eq_iff bit_take_bit_iff)

lemma bit_times2: "bit (x * 2) j \<longleftrightarrow> 0 < j \<and> bit x (j - 1)" for x :: int
  using bit_double_iff[of x j] by (auto simp add: mult.commute)

lemma take_bit_eq_bits: "take_bit W x = take_bit W y \<longleftrightarrow> (\<forall>j<W. bit x j = bit y j)" for x y :: int
  by (auto simp add: bit_eq_iff bit_take_bit_iff)

lemma round_low_zero:
  assumes "take_bit l p = 0" "take_bit z x = 0"
  shows "take_bit (min l (Suc z)) ((if c then push_bit 1 x XOR p else push_bit 1 x) AND cm) = (0::int)"
  using assms unfolding low_zero_iff
  by (auto simp add: bit_and_iff bit_xor_iff bit_times2)

lemma windowed_rounds_low_zero:
  "take_bit l p = 0 \<Longrightarrow> take_bit z x = 0 \<Longrightarrow>
   take_bit (min l (z + n)) (windowed_rounds n m cm p x) = 0"
proof (induction n arbitrary: z x)
  case 0
  then show ?case unfolding low_zero_iff by simp
next
  case (Suc n)
  have "take_bit (min l (min l (Suc z) + n))
     (windowed_rounds n m cm p ((if x AND m \<noteq> 0 then push_bit 1 x XOR p else push_bit 1 x) AND cm)) = 0"
    by (rule Suc.IH[OF Suc.prems(1) round_low_zero[OF Suc.prems]])
  moreover have "min l (min l (Suc z) + n) = min l (z + Suc n)" by simp
  ultimately show ?case by simp
qed

lemma rev8_byte_bounds: "0 \<le> REV8BITS ! unat b" "REV8BITS ! unat b < 256" for b :: byte
proof -
  have "unat b < 256" using unsigned_less[of b, where 'a = nat] by simp
  then have e: "REV8BITS ! unat b = bit_reverse_byte (int (unat b))" by (rule REV8BITS_nth)
  have "bit_reverse_byte (int (unat b)) = take_bit 8 (bit_reverse_byte (int (unat b)))"
    unfolding bit_reverse_byte_def by (simp add: and_255_take_bit)
  then have "0 \<le> bit_reverse_byte (int (unat b)) \<and> bit_reverse_byte (int (unat b)) < 256"
    using take_bit_int_less_exp[of 8 "bit_reverse_byte (int (unat b))"]
      take_bit_nonnegative[of 8 "bit_reverse_byte (int (unat b))"] by simp
  then show "0 \<le> REV8BITS ! unat b" "REV8BITS ! unat b < 256" unfolding e by simp_all
qed

lemma uint_byte_bounds: "0 \<le> uint b" "uint b < 256" for b :: byte
  using uint_lt2p[of b] by simp_all

lemma generic_rounds_cong:
  "0 < W \<Longrightarrow> take_bit W x = take_bit W y \<Longrightarrow>
   take_bit W (generic_rounds n (2 ^ (W - 1)) p x) = take_bit W (generic_rounds n (2 ^ (W - 1)) p y)"
  for x y :: int
proof (induction n arbitrary: x y)
  case 0 then show ?case by simp
next
  case (Suc n)
  have b: "bit x (W - 1) = bit y (W - 1)"
    using Suc.prems bit_take_bit_iff[of W x "W - 1"] bit_take_bit_iff[of W y "W - 1"] by simp
  have "take_bit W (push_bit 1 x) = take_bit W (push_bit 1 y)"
    using Suc.prems(2) unfolding take_bit_eq_bits by (auto simp add: bit_times2)
  then have "take_bit W (if x AND 2 ^ (W - 1) \<noteq> 0 then push_bit 1 x XOR p else push_bit 1 x)
     = take_bit W (if y AND 2 ^ (W - 1) \<noteq> 0 then push_bit 1 y XOR p else push_bit 1 y)"
    using b by (simp add: and_pow_ne0 take_bit_xor)
  then show ?case unfolding generic_rounds.simps by (rule Suc.IH[OF Suc.prems(1)])
qed

lemma and_mask_take_bit: "x AND (2 ^ W - 1) = take_bit W x" for x :: int
  by (simp add: take_bit_eq_mask mask_eq_exp_minus_1)

lemma windowed_rounds_generic:
  "0 < W \<Longrightarrow> windowed_rounds n (2 ^ (W - 1)) (2 ^ W - 1) p x
     = (if n = 0 then x else take_bit W (generic_rounds n (2 ^ (W - 1)) p x))"
proof (induction n arbitrary: x)
  case 0
  then show ?case by simp
next
  case (Suc n)
  let ?s = "if x AND 2 ^ (W - 1) \<noteq> 0 then push_bit 1 x XOR p else push_bit 1 x"
  show ?case
  proof (cases n)
    case 0
    then show ?thesis by (simp add: and_mask_take_bit)
  next
    case (Suc k)
    have "windowed_rounds (Suc n) (2 ^ (W - 1)) (2 ^ W - 1) p x
        = take_bit W (generic_rounds n (2 ^ (W - 1)) p (take_bit W ?s))"
      using Suc.IH[OF Suc.prems, of "take_bit W ?s"] Suc by (simp add: and_mask_take_bit)
    also have "\<dots> = take_bit W (generic_rounds n (2 ^ (W - 1)) p ?s)"
      by (rule generic_rounds_cong[OF Suc.prems]) simp
    finally show ?thesis by simp
  qed
qed


lemma windowed_loop_Cons:
  assumes "0 \<le> index" "index < int (length data)" "0 \<le> first_bit w" "0 \<le> win_msb_lshift e"
  shows "windowed_loop e data w poly (index # check_range) crc =
     windowed_loop e data w poly check_range
       (windowed_rounds (nat (window_width w index)) (win_msbit_mask e) (win_crc_mask e) poly
          (crc XOR push_bit (nat (win_msb_lshift e)) (window_byte e w index (data ! nat index))))"
  using assms
  by (simp add: getitem_def bind_def lshift_def Let_def window_byte_def window_width_def)

lemma bit_end_mask: "bit (NOT (2 ^ n - 1 :: int)) j \<longleftrightarrow> n \<le> j"
  using bit_mask_iff[of n j, where 'a = int]
  by (auto simp add: bit_not_iff mask_eq_exp_minus_1)

lemma window_byte_low_zero:
  assumes "0 \<le> first_bit w" "first_bit w < 8" "0 \<le> last_bit w" "last_bit w < 8"
    and "end_mask w = NOT (2 ^ nat (7 - last_bit w) - 1) AND 255"
    and "first_byte w = last_byte w \<longrightarrow> first_bit w \<le> last_bit w + 1"
  shows "take_bit (8 - nat (window_width w index)) (window_byte e w index b) = 0"
proof -
  consider (both) "index = last_byte w" "index = first_byte w"
    | (last) "index = last_byte w" "index \<noteq> first_byte w"
    | (first) "index \<noteq> last_byte w" "index = first_byte w"
    | (none) "index \<noteq> last_byte w" "index \<noteq> first_byte w" by blast
  then show ?thesis
  proof cases
    case both
    then have le: "first_bit w \<le> last_bit w + 1" using assms(6) by simp
    have d: "8 - nat (last_bit w + 1 - first_bit w) = nat (7 - last_bit w) + nat (first_bit w)"
      using assms(1-4) le by linarith
    show ?thesis using both unfolding low_zero_iff window_width_def window_byte_def Let_def
      by (auto simp add: d assms(5) bit_push_bit_iff bit_and_iff bit_end_mask)
  next
    case last
    have d: "8 - nat (last_bit w + 1) = nat (7 - last_bit w)" using assms(3,4) by linarith
    show ?thesis using last unfolding low_zero_iff window_width_def window_byte_def Let_def
      by (auto simp add: d assms(5) bit_and_iff bit_end_mask)
  next
    case first
    have d: "8 - nat (8 - first_bit w) = nat (first_bit w)" using assms(1,2) by linarith
    show ?thesis using first unfolding low_zero_iff window_width_def window_byte_def Let_def
      by (auto simp add: d bit_push_bit_iff)
  next
    case none
    then show ?thesis by (simp add: window_width_def)
  qed
qed

lemma window_width_le: "0 \<le> first_bit w \<Longrightarrow> last_bit w < 8 \<Longrightarrow> window_width w index \<le> 8"
  by (simp add: window_width_def Let_def)

lemma windowed_loop_ok:
  assumes e: "CrcWindowed_init params = Inr e"
    and w: "0 \<le> first_bit w" "first_bit w < 8" "0 \<le> last_bit w" "last_bit w < 8"
      "end_mask w = NOT (2 ^ nat (7 - last_bit w) - 1) AND 255"
      "first_byte w = last_byte w \<longrightarrow> first_bit w \<le> last_bit w + 1"
    and p: "take_bit (nat (win_crc_lshift e)) poly = 0"
  shows "(\<forall>i\<in>set check_range. 0 \<le> i \<and> i < int (length data)) \<Longrightarrow>
     take_bit (nat (win_crc_lshift e)) crc = 0 \<Longrightarrow>
     \<exists>c. windowed_loop e data w poly check_range crc = Inr c \<and> take_bit (nat (win_crc_lshift e)) c = 0"
proof (induction check_range arbitrary: crc)
  case Nil
  then show ?case by simp
next
  case (Cons index check_range)
  let ?l = "nat (win_crc_lshift e)"
  let ?bw = "nat (window_width w index)"
  let ?byte = "window_byte e w index (data ! nat index)"
  let ?x = "crc XOR push_bit (nat (win_msb_lshift e)) ?byte"
  let ?c = "windowed_rounds ?bw (win_msbit_mask e) (win_crc_mask e) poly ?x"
  have m: "0 \<le> win_msb_lshift e" using e unfolding CrcWindowed_init_Inr by auto
  have i: "0 \<le> index" "index < int (length data)" using Cons.prems(1) by simp_all
  have unf: "windowed_loop e data w poly (index # check_range) crc =
      windowed_loop e data w poly check_range ?c"
    by (rule windowed_loop_Cons[OF i w(1) m])
  have z: "take_bit ?l ?c = 0"
  proof (cases "params_width params < 8")
    case True
    then have l: "win_msb_lshift e = 0" "?l \<le> 8" using e unfolding CrcWindowed_init_Inr by auto
    have bw: "?bw \<le> 8" using window_width_le[OF w(1) w(4), of index] by linarith
    have "take_bit (min ?l (8 - ?bw)) ?byte = 0"
      using window_byte_low_zero[OF w, of index e "data ! nat index"]
      unfolding low_zero_iff by simp
    moreover have "take_bit (min ?l (8 - ?bw)) crc = 0"
      using Cons.prems(2) unfolding low_zero_iff by simp
    ultimately have "take_bit (min ?l (8 - ?bw)) ?x = 0"
      by (simp add: l take_bit_xor)
    then have "take_bit (min ?l (min ?l (8 - ?bw) + ?bw)) ?c = 0"
      by (rule windowed_rounds_low_zero[OF p])
    moreover have "min ?l (min ?l (8 - ?bw) + ?bw) = ?l" using l(2) bw by linarith
    ultimately show ?thesis by simp
  next
    case False
    then have "?l = 0" using e unfolding CrcWindowed_init_Inr by auto
    then show ?thesis by simp
  qed
  show ?case unfolding unf using Cons.IH[OF _ z] Cons.prems(1) by simp
qed


lemma windowed_valid_run:
  assumes e: "CrcWindowed_init params = Inr e"
    and v: "0 \<le> start_bit" "start_bit < 8 * int (length data)" "0 \<le> len"
      "start_bit + len \<le> 8 * int (length data)"
  defines "w \<equiv> \<lparr>first_byte = start_bit div 8, first_bit = start_bit mod 8,
                 last_byte = (start_bit + len - 1) div 8,
                 last_bit = (start_bit + len - 1) mod 8,
                 end_mask = NOT (2 ^ nat (7 - (start_bit + len - 1) mod 8) - 1) AND 255\<rparr>"
  shows "\<exists>c. windowed_loop e data w (push_bit (nat (win_crc_lshift e)) (win_poly e))
             [first_byte w..last_byte w] (push_bit (nat (win_crc_lshift e)) crc) = Inr c \<and>
           take_bit (nat (win_crc_lshift e)) c = 0 \<and>
           CrcWindowed_calculate e data start_bit (Some len) (Some crc) =
             Inr ((if win_ref_out e then bit_reverse_n (drop_bit (nat (win_crc_lshift e)) c) (win_width e)
                   else drop_bit (nat (win_crc_lshift e)) c) XOR win_xor_out e)"
proof -
  let ?l = "nat (win_crc_lshift e)"
  have l: "0 \<le> win_crc_lshift e" using e unfolding CrcWindowed_init_Inr by auto
  have w1: "0 \<le> first_bit w" "first_bit w < 8" "0 \<le> last_bit w" "last_bit w < 8"
    "end_mask w = NOT (2 ^ nat (7 - last_bit w) - 1) AND 255"
    by (simp_all add: w_def)
  have w2: "first_byte w = last_byte w \<longrightarrow> first_bit w \<le> last_bit w + 1"
  proof
    assume "first_byte w = last_byte w"
    then have q: "start_bit div 8 = (start_bit + len - 1) div 8" by (simp add: w_def)
    have "start_bit = 8 * (start_bit div 8) + start_bit mod 8" by simp
    moreover have "start_bit + len - 1 = 8 * ((start_bit + len - 1) div 8) + (start_bit + len - 1) mod 8"
      by simp
    ultimately have "start_bit mod 8 \<le> (start_bit + len - 1) mod 8 + 1"
      using q v(3) by linarith
    then show "first_bit w \<le> last_bit w + 1" by (simp add: w_def)
  qed
  have r: "\<forall>i\<in>set [first_byte w..last_byte w]. 0 \<le> i \<and> i < int (length data)"
  proof
    fix i assume "i \<in> set [first_byte w..last_byte w]"
    then have i: "start_bit div 8 \<le> i" "i \<le> (start_bit + len - 1) div 8" by (simp_all add: w_def)
    have "0 \<le> start_bit div 8" using v(1) by simp
    moreover have "(start_bit + len - 1) div 8 \<le> (8 * int (length data) - 1) div 8"
      using v(4) by (intro zdiv_mono1) simp_all
    moreover have "(8 * int (length data) - 1) div 8 < int (length data)" by linarith
    ultimately show "0 \<le> i \<and> i < int (length data)" using i by linarith
  qed
  have p: "take_bit ?l (push_bit ?l (win_poly e)) = 0" "take_bit ?l (push_bit ?l crc) = 0"
    by (simp_all add: take_bit_push_bit)
  obtain c where c: "windowed_loop e data w (push_bit ?l (win_poly e))
             [first_byte w..last_byte w] (push_bit ?l crc) = Inr c" "take_bit ?l c = 0"
    using windowed_loop_ok[OF e w1 w2 p(1) r p(2)] by blast
  have em: "calc_end_mask ((start_bit + len - 1) mod 8) = Inr (end_mask w)"
    by (simp add: calc_end_mask_def lshift_def bind_def w_def)
  have a: "c AND (push_bit ?l 1 - 1) = 0"
    using c(2) by (simp add: and_mask_take_bit)
  have "CrcWindowed_calculate e data start_bit (Some len) (Some crc) =
             Inr ((if win_ref_out e then bit_reverse_n (drop_bit ?l c) (win_width e)
                   else drop_bit ?l c) XOR win_xor_out e)"
    using v l c(1) a unfolding CrcWindowed_calculate_def
    by (simp add: Let_def bind_def lshift_def rshift_def w_def em[unfolded w_def, simplified])
  then show ?thesis using c by blast
qed


lemma windowed_defaults:
  "CrcWindowed_calculate e data start_bit length_bits seed =
   CrcWindowed_calculate e data start_bit
     (Some (case length_bits of None \<Rightarrow> 8 * int (length data) - start_bit | Some l \<Rightarrow> l))
     (Some (case seed of None \<Rightarrow> win_default_seed e | Some s \<Rightarrow> s))"
  by (simp add: CrcWindowed_calculate_def split: option.splits)

lemma byte_and_255:
  "(if r then REV8BITS ! unat b else uint b) AND 255 = (if r then REV8BITS ! unat b else uint b)"
  for b :: byte
proof -
  have "0 \<le> (if r then REV8BITS ! unat b else uint b) \<and> (if r then REV8BITS ! unat b else uint b) < 2 ^ 8"
    using rev8_byte_bounds[of b] uint_byte_bounds[of b] by simp
  then show ?thesis unfolding and_255_take_bit by (simp only: take_bit_int_eq_self)
qed

lemma whole_bytes_loop:
  assumes f: "win_msb_lshift e = gen_msb_lshift g" "win_ref_in e = gen_ref_in g"
      "win_msbit_mask e = 2 ^ (W - 1)" "gen_msbit_mask g = 2 ^ (W - 1)"
      "win_crc_mask e = 2 ^ W - 1" "gen_crc_mask g = 2 ^ W - 1" "0 < W" "0 \<le> gen_msb_lshift g"
    and w: "first_bit w = 0" "last_bit w = 7" "end_mask w = 255"
  shows "d = b - a \<Longrightarrow> b \<le> length data \<Longrightarrow>
     windowed_loop e data w poly [int a..int b - 1] crc =
     generic_loop g poly crc (take (b - a) (drop a data))"
proof (induction d arbitrary: a crc)
  case 0
  then have "int b - 1 < int a" by simp
  then show ?case using 0 by simp
next
  case (Suc d)
  then have ab: "a < b" "a < length data" by simp_all
  have u: "[int a..int b - 1] = int a # [int (Suc a)..int b - 1]"
    using ab by (simp add: upto_rec1 add.commute)
  have t: "take (b - a) (drop a data) = data ! a # take (b - Suc a) (drop (Suc a) data)"
    using ab by (metis Cons_nth_drop_Suc Suc_diff_Suc take_Suc_Cons)
  have i: "0 \<le> int a" "int a < int (length data)" using ab by simp_all
  have m: "0 \<le> win_msb_lshift e" "0 \<le> first_bit w" using f w by simp_all
  have ww: "window_width w (int a) = 8" by (simp add: window_width_def w)
  have wb: "window_byte e w (int a) (data ! a) =
      (if gen_ref_in g then REV8BITS ! unat (data ! a) else uint (data ! a))"
    using byte_and_255[of True "data ! a"] byte_and_255[of False "data ! a"]
    by (simp add: window_byte_def w f Let_def)
  have r: "windowed_rounds 8 (2 ^ (W - 1)) (2 ^ W - 1) poly x =
      generic_rounds 8 (2 ^ (W - 1)) poly x AND (2 ^ W - 1)" for x
    using windowed_rounds_generic[OF f(7), of 8 poly x] by (simp add: and_mask_take_bit)
  let ?B = "if gen_ref_in g then REV8BITS ! unat (data ! a) else uint (data ! a)"
  let ?x = "crc XOR push_bit (nat (gen_msb_lshift g)) ?B"
  let ?rest = "take (b - Suc a) (drop (Suc a) data)"
  have "d = b - Suc a" using Suc.prems(1) by simp
  note IH = Suc.IH[OF this Suc.prems(2)]
  have gs: "generic_loop g poly crc (data ! a # ?rest) =
      generic_loop g poly (generic_rounds 8 (2 ^ (W - 1)) poly ?x AND (2 ^ W - 1)) ?rest"
    using f(8) by (simp add: Let_def bind_def lshift_def f(4,6) del: generic_rounds.simps)
  have ws: "windowed_loop e data w poly (int a # [int (Suc a)..int b - 1]) crc =
      windowed_loop e data w poly [int (Suc a)..int b - 1]
        (windowed_rounds 8 (2 ^ (W - 1)) (2 ^ W - 1) poly ?x)"
    unfolding windowed_loop_Cons[OF i m(2) m(1)] ww f(1,3,5) by (simp only: nat_int wb nat_numeral)
  show ?case unfolding u t gs ws r by (rule IH)
qed

lemma windowed_bytes_eq_generic:
  assumes g: "create_generic poly width seed ref_in ref_out xor_out = Inr g"
    and e: "create_windowed_todo \<lparr>params_polynomial = poly, params_width = width,
               params_seed = seed, params_reflect_in = ref_in, params_reflect_out = ref_out,
               params_xor_out = xor_out\<rparr> = Inr e"
    and r: "a < length data" "a \<le> b" "b \<le> length data"
  shows "CrcWindowed_calculate e data (8 * int a) (Some (8 * (int b - int a))) s =
         CrcGeneric_calculate g (take (b - a) (drop a data)) s"
proof -
  let ?P = "\<lparr>params_polynomial = poly, params_width = width,
               params_seed = seed, params_reflect_in = ref_in, params_reflect_out = ref_out,
               params_xor_out = xor_out\<rparr>"
  define W where "W = nat (if width < 8 then 8 else width)"
  define sd where "sd = (case s of None \<Rightarrow> seed | Some x \<Rightarrow> x)"
  have ei: "CrcWindowed_init ?P = Inr e" using e by (simp add: create_windowed_todo_def)
  have gf: "0 \<le> width" "gen_poly g = poly" "gen_width g = width" "gen_default_seed g = seed"
    "gen_xor_out g = xor_out" "gen_crc_lshift g = (if width < 8 then 8 - width else 0)"
    "gen_msb_lshift g = (if width < 8 then 0 else width - 8)"
    "gen_msbit_mask g = 2 ^ (W - 1)" "gen_crc_mask g = 2 ^ W - 1"
    "gen_ref_in g = ref_in" "gen_ref_out g = ref_out"
    using g unfolding create_generic_def CrcGeneric_init_Inr W_def
    by (auto simp add: nat_diff_distrib)
  have ef: "win_poly e = poly" "win_width e = width" "win_default_seed e = seed"
    "win_xor_out e = xor_out" "win_crc_lshift e = (if width < 8 then 8 - width else 0)"
    "win_msb_lshift e = (if width < 8 then 0 else width - 8)"
    "win_msbit_mask e = 2 ^ (W - 1)" "win_crc_mask e = 2 ^ W - 1"
    "win_ref_in e = ref_in" "win_ref_out e = ref_out"
    using ei unfolding CrcWindowed_init_Inr W_def
    by (auto simp add: nat_diff_distrib)
  have W: "0 < W" using gf(1) by (simp add: W_def)
  have m: "0 \<le> gen_msb_lshift g" using gf(1,7) by simp
  let ?l = "nat (win_crc_lshift e)"
  let ?start = "8 * int a" and ?len = "8 * (int b - int a)"
  define w where "w = \<lparr>first_byte = ?start div 8, first_bit = ?start mod 8,
                 last_byte = (?start + ?len - 1) div 8,
                 last_bit = (?start + ?len - 1) mod 8,
                 end_mask = NOT (2 ^ nat (7 - (?start + ?len - 1) mod 8) - 1) AND 255\<rparr>"
  have v: "0 \<le> ?start" "?start < 8 * int (length data)" "0 \<le> ?len"
      "?start + ?len \<le> 8 * int (length data)"
    using r by simp_all
  obtain c where c: "windowed_loop e data w (push_bit ?l (win_poly e))
             [first_byte w..last_byte w] (push_bit ?l sd) = Inr c"
     "CrcWindowed_calculate e data ?start (Some ?len) (Some sd) =
             Inr ((if win_ref_out e then bit_reverse_n (drop_bit ?l c) (win_width e)
                   else drop_bit ?l c) XOR win_xor_out e)"
    using windowed_valid_run[OF ei v, of sd] unfolding w_def by blast
  have lb: "(8 * int b - 1) mod 8 = 7" "(8 * int b - 1) div 8 = int b - 1"
    by presburger+
  have wf: "first_bit w = 0" "last_bit w = 7" "end_mask w = 255" "first_byte w = int a"
    "last_byte w = int b - 1"
    unfolding w_def by (simp_all add: lb)
  have "windowed_loop e data w (push_bit ?l (win_poly e)) [int a..int b - 1] (push_bit ?l sd) =
     generic_loop g (push_bit ?l (win_poly e)) (push_bit ?l sd) (take (b - a) (drop a data))"
    by (rule whole_bytes_loop[OF _ _ ef(7) gf(8) ef(8) gf(9) W m wf(1-3) refl r(3)])
       (simp_all add: ef gf)
  then have gl: "generic_loop g (push_bit ?l (win_poly e)) (push_bit ?l sd) (take (b - a) (drop a data)) = Inr c"
    using c(1) by (simp add: wf)
  have l: "0 \<le> gen_crc_lshift g" "gen_crc_lshift g = win_crc_lshift e" using gf ef by simp_all
  have "CrcGeneric_calculate g (take (b - a) (drop a data)) s =
      Inr ((if win_ref_out e then bit_reverse_n (drop_bit ?l c) (win_width e)
                   else drop_bit ?l c) XOR win_xor_out e)"
    using gl l(1) unfolding CrcGeneric_calculate_def l(2)
    by (simp add: bind_def lshift_def rshift_def Let_def sd_def gf(2-5,11) ef(1-4,10)
        cong: if_cong option.case_cong)
  moreover have "CrcWindowed_calculate e data ?start (Some ?len) s =
      CrcWindowed_calculate e data ?start (Some ?len) (Some sd)"
    by (subst windowed_defaults) (simp add: sd_def ef cong: option.case_cong)
  ultimately show ?thesis using c(2) by simp
qed

section \<open>The windowed engine: range errors and whole bytes\<close>

lemma crc8_windowed: "create_windowed_todo \<lparr>params_polynomial = 7, params_width = 8, params_seed = 0,
        params_reflect_in = False, params_reflect_out = False, params_xor_out = 0\<rparr> = Inr \<lparr>win_poly = 7, win_width = 8, win_default_seed = 0, win_xor_out = 0,
        win_result_mask = 255, win_crc_lshift = 0, win_msb_lshift = 0, win_msbit_mask = 128,
        win_crc_mask = 255, win_ref_in = False, win_ref_out = False\<rparr>"
  by (simp add: create_windowed_todo_def CrcWindowed_init_def bind_def lshift_def)

lemma crc8_generic: "create_generic 7 8 0 False False 0 = Inr \<lparr>gen_poly = 7, gen_width = 8, gen_default_seed = 0, gen_xor_out = 0,
        gen_result_mask = 255, gen_crc_lshift = 0, gen_msb_lshift = 0, gen_msbit_mask = 128,
        gen_crc_mask = 255, gen_ref_in = False, gen_ref_out = False\<rparr>"
  by (simp add: create_generic_def CrcGeneric_init_def bind_def lshift_def)

text \<open>
  C8. The windowed engine's \<open>calculate\<close> raises \<open>ValueError\<close> exactly when
  \<open>start_bit < 0\<close>, or \<open>start_bit >= total_bits\<close>, or \<open>length_bits < 0\<close>, or
  \<open>start_bit + length_bits > total_bits\<close>, where \<open>length_bits\<close> defaults to
  \<open>total_bits - start_bit\<close>. In that case the error is raised whatever the engine holds, so
  before any step of the computation; in every other case an engine built by the windowed
  constructor returns a CRC value: no shift count is negative, no subscript is out of range
  and the assertion after the loop holds.
\<close>

theorem windowed_range_check:
  "(start_bit < 0 \<or> 8 * int (length data) \<le> start_bit
      \<or> (case length_bits of None \<Rightarrow> 8 * int (length data) - start_bit | Some l \<Rightarrow> l) < 0
      \<or> 8 * int (length data)
           < start_bit + (case length_bits of None \<Rightarrow> 8 * int (length data) - start_bit | Some l \<Rightarrow> l)
    \<longrightarrow> CrcWindowed_calculate e' data start_bit length_bits seed = Inl ValueError) \<and>
   (create_windowed_todo params = Inr e \<longrightarrow>
    \<not> (start_bit < 0 \<or> 8 * int (length data) \<le> start_bit
      \<or> (case length_bits of None \<Rightarrow> 8 * int (length data) - start_bit | Some l \<Rightarrow> l) < 0
      \<or> 8 * int (length data)
           < start_bit + (case length_bits of None \<Rightarrow> 8 * int (length data) - start_bit | Some l \<Rightarrow> l))
    \<longrightarrow> (\<exists>v. CrcWindowed_calculate e data start_bit length_bits seed = Inr v))"
proof (intro conjI impI)
  assume "start_bit < 0 \<or> 8 * int (length data) \<le> start_bit
      \<or> (case length_bits of None \<Rightarrow> 8 * int (length data) - start_bit | Some l \<Rightarrow> l) < 0
      \<or> 8 * int (length data)
           < start_bit + (case length_bits of None \<Rightarrow> 8 * int (length data) - start_bit | Some l \<Rightarrow> l)"
  then show "CrcWindowed_calculate e' data start_bit length_bits seed = Inl ValueError"
    by (auto simp add: CrcWindowed_calculate_def Let_def)
next
  let ?len = "case length_bits of None \<Rightarrow> 8 * int (length data) - start_bit | Some l \<Rightarrow> l"
  assume e: "create_windowed_todo params = Inr e"
    and v: "\<not> (start_bit < 0 \<or> 8 * int (length data) \<le> start_bit \<or> ?len < 0
              \<or> 8 * int (length data) < start_bit + ?len)"
  have ei: "CrcWindowed_init params = Inr e" using e by (simp add: create_windowed_todo_def)
  have v': "0 \<le> start_bit" "start_bit < 8 * int (length data)" "0 \<le> ?len"
      "start_bit + ?len \<le> 8 * int (length data)"
    using v by simp_all
  show "\<exists>v. CrcWindowed_calculate e data start_bit length_bits seed = Inr v"
    using windowed_valid_run[OF ei v', of "case seed of None \<Rightarrow> win_default_seed e | Some s \<Rightarrow> s"]
    by (subst windowed_defaults) blast
qed

theorem windowed_range_check_witness:
  "create_windowed_todo \<lparr>params_polynomial = 7, params_width = 8, params_seed = 0,
        params_reflect_in = False, params_reflect_out = False, params_xor_out = 0\<rparr> = Inr \<lparr>win_poly = 7, win_width = 8, win_default_seed = 0, win_xor_out = 0,
        win_result_mask = 255, win_crc_lshift = 0, win_msb_lshift = 0, win_msbit_mask = 128,
        win_crc_mask = 255, win_ref_in = False, win_ref_out = False\<rparr> \<and>
   CrcWindowed_calculate \<lparr>win_poly = 7, win_width = 8, win_default_seed = 0, win_xor_out = 0,
        win_result_mask = 255, win_crc_lshift = 0, win_msb_lshift = 0, win_msbit_mask = 128,
        win_crc_mask = 255, win_ref_in = False, win_ref_out = False\<rparr> [255] (- 1) None None = Inl ValueError \<and>
   CrcWindowed_calculate \<lparr>win_poly = 7, win_width = 8, win_default_seed = 0, win_xor_out = 0,
        win_result_mask = 255, win_crc_lshift = 0, win_msb_lshift = 0, win_msbit_mask = 128,
        win_crc_mask = 255, win_ref_in = False, win_ref_out = False\<rparr> [255] 8 None None = Inl ValueError \<and>
   CrcWindowed_calculate \<lparr>win_poly = 7, win_width = 8, win_default_seed = 0, win_xor_out = 0,
        win_result_mask = 255, win_crc_lshift = 0, win_msb_lshift = 0, win_msbit_mask = 128,
        win_crc_mask = 255, win_ref_in = False, win_ref_out = False\<rparr> [255] 0 (Some (- 1)) None = Inl ValueError \<and>
   CrcWindowed_calculate \<lparr>win_poly = 7, win_width = 8, win_default_seed = 0, win_xor_out = 0,
        win_result_mask = 255, win_crc_lshift = 0, win_msb_lshift = 0, win_msbit_mask = 128,
        win_crc_mask = 255, win_ref_in = False, win_ref_out = False\<rparr> [255] 1 (Some 8) None = Inl ValueError \<and>
   (\<exists>v. CrcWindowed_calculate \<lparr>win_poly = 7, win_width = 8, win_default_seed = 0, win_xor_out = 0,
        win_result_mask = 255, win_crc_lshift = 0, win_msb_lshift = 0, win_msbit_mask = 128,
        win_crc_mask = 255, win_ref_in = False, win_ref_out = False\<rparr> [255] 1 (Some 3) None = Inr v) \<and>
   (\<exists>v. CrcWindowed_calculate \<lparr>win_poly = 7, win_width = 8, win_default_seed = 0, win_xor_out = 0,
        win_result_mask = 255, win_crc_lshift = 0, win_msb_lshift = 0, win_msbit_mask = 128,
        win_crc_mask = 255, win_ref_in = False, win_ref_out = False\<rparr> [255] 1 None None = Inr v)"
proof -
  note bad = windowed_range_check[where data = "[255]" and seed = None and e' = "\<lparr>win_poly = 7, win_width = 8, win_default_seed = 0, win_xor_out = 0,
        win_result_mask = 255, win_crc_lshift = 0, win_msb_lshift = 0, win_msbit_mask = 128,
        win_crc_mask = 255, win_ref_in = False, win_ref_out = False\<rparr>", THEN conjunct1, THEN mp]
  note good = windowed_range_check[where data = "[255]" and seed = None, THEN conjunct2, THEN mp,
      OF crc8_windowed, THEN mp]
  have "CrcWindowed_calculate \<lparr>win_poly = 7, win_width = 8, win_default_seed = 0, win_xor_out = 0,
        win_result_mask = 255, win_crc_lshift = 0, win_msb_lshift = 0, win_msbit_mask = 128,
        win_crc_mask = 255, win_ref_in = False, win_ref_out = False\<rparr> [255] (- 1) None None = Inl ValueError" by (rule bad) simp
  moreover have "CrcWindowed_calculate \<lparr>win_poly = 7, win_width = 8, win_default_seed = 0, win_xor_out = 0,
        win_result_mask = 255, win_crc_lshift = 0, win_msb_lshift = 0, win_msbit_mask = 128,
        win_crc_mask = 255, win_ref_in = False, win_ref_out = False\<rparr> [255] 8 None None = Inl ValueError" by (rule bad) simp
  moreover have "CrcWindowed_calculate \<lparr>win_poly = 7, win_width = 8, win_default_seed = 0, win_xor_out = 0,
        win_result_mask = 255, win_crc_lshift = 0, win_msb_lshift = 0, win_msbit_mask = 128,
        win_crc_mask = 255, win_ref_in = False, win_ref_out = False\<rparr> [255] 0 (Some (- 1)) None = Inl ValueError"
    by (rule bad) simp
  moreover have "CrcWindowed_calculate \<lparr>win_poly = 7, win_width = 8, win_default_seed = 0, win_xor_out = 0,
        win_result_mask = 255, win_crc_lshift = 0, win_msb_lshift = 0, win_msbit_mask = 128,
        win_crc_mask = 255, win_ref_in = False, win_ref_out = False\<rparr> [255] 1 (Some 8) None = Inl ValueError"
    by (rule bad) simp
  moreover have "\<exists>v. CrcWindowed_calculate \<lparr>win_poly = 7, win_width = 8, win_default_seed = 0, win_xor_out = 0,
        win_result_mask = 255, win_crc_lshift = 0, win_msb_lshift = 0, win_msbit_mask = 128,
        win_crc_mask = 255, win_ref_in = False, win_ref_out = False\<rparr> [255] 1 (Some 3) None = Inr v" by (rule good) simp
  moreover have "\<exists>v. CrcWindowed_calculate \<lparr>win_poly = 7, win_width = 8, win_default_seed = 0, win_xor_out = 0,
        win_result_mask = 255, win_crc_lshift = 0, win_msb_lshift = 0, win_msbit_mask = 128,
        win_crc_mask = 255, win_ref_in = False, win_ref_out = False\<rparr> [255] 1 None None = Inr v" by (rule good) simp
  ultimately show ?thesis using crc8_windowed by blast
qed

text \<open>
  C4 as stated fails on the empty buffer: with \<open>start_bit = 0\<close> and \<open>length_bits = 0\<close> (the
  total number of bits) the windowed engine raises \<open>ValueError\<close>, while the generic engine
  returns a value.
\<close>

theorem windowed_whole_buffer_counterexample:
  "create_generic 7 8 0 False False 0 = Inr \<lparr>gen_poly = 7, gen_width = 8, gen_default_seed = 0, gen_xor_out = 0,
        gen_result_mask = 255, gen_crc_lshift = 0, gen_msb_lshift = 0, gen_msbit_mask = 128,
        gen_crc_mask = 255, gen_ref_in = False, gen_ref_out = False\<rparr> \<and>
   create_windowed_todo \<lparr>params_polynomial = 7, params_width = 8, params_seed = 0,
        params_reflect_in = False, params_reflect_out = False, params_xor_out = 0\<rparr> = Inr \<lparr>win_poly = 7, win_width = 8, win_default_seed = 0, win_xor_out = 0,
        win_result_mask = 255, win_crc_lshift = 0, win_msb_lshift = 0, win_msbit_mask = 128,
        win_crc_mask = 255, win_ref_in = False, win_ref_out = False\<rparr> \<and>
   CrcWindowed_calculate \<lparr>win_poly = 7, win_width = 8, win_default_seed = 0, win_xor_out = 0,
        win_result_mask = 255, win_crc_lshift = 0, win_msb_lshift = 0, win_msbit_mask = 128,
        win_crc_mask = 255, win_ref_in = False, win_ref_out = False\<rparr> [] 0 (Some 0) None = Inl ValueError \<and>
   CrcGeneric_calculate \<lparr>gen_poly = 7, gen_width = 8, gen_default_seed = 0, gen_xor_out = 0,
        gen_result_mask = 255, gen_crc_lshift = 0, gen_msb_lshift = 0, gen_msbit_mask = 128,
        gen_crc_mask = 255, gen_ref_in = False, gen_ref_out = False\<rparr> [] None = Inr 0"
  by (simp add: crc8_generic crc8_windowed CrcWindowed_calculate_def CrcGeneric_calculate_def
      bind_def lshift_def rshift_def)

text \<open>
  C4, amended. For every parameter set and every non-empty byte buffer, the windowed engine's
  \<open>calculate\<close> with \<open>start_bit = 0\<close> and \<open>length_bits\<close> equal to the total number of bits
  of the buffer (given explicitly or by default) returns what the full-buffer MSB-first
  generic engine's \<open>calculate\<close> returns on that buffer with the same seed argument.
\<close>

theorem windowed_whole_buffer:
  assumes "create_generic poly width seed ref_in ref_out xor_out = Inr g"
    and "create_windowed_todo \<lparr>params_polynomial = poly, params_width = width,
           params_seed = seed, params_reflect_in = ref_in, params_reflect_out = ref_out,
           params_xor_out = xor_out\<rparr> = Inr e"
    and "data \<noteq> []"
  shows "CrcWindowed_calculate e data 0 (Some (8 * int (length data))) s =
           CrcGeneric_calculate g data s \<and>
         CrcWindowed_calculate e data 0 None s = CrcGeneric_calculate g data s"
proof -
  have "0 < length data" using assms(3) by simp
  then have a: "CrcWindowed_calculate e data 0 (Some (8 * int (length data))) s =
           CrcGeneric_calculate g data s"
    using windowed_bytes_eq_generic[OF assms(1,2), of 0 data "length data" s] by simp
  moreover have "CrcWindowed_calculate e data 0 None s =
      CrcWindowed_calculate e data 0 (Some (8 * int (length data))) s"
    by (simp add: CrcWindowed_calculate_def)
  ultimately show ?thesis by simp
qed

theorem windowed_whole_buffer_witness:
  "create_generic 7 8 0 False False 0 = Inr \<lparr>gen_poly = 7, gen_width = 8, gen_default_seed = 0, gen_xor_out = 0,
        gen_result_mask = 255, gen_crc_lshift = 0, gen_msb_lshift = 0, gen_msbit_mask = 128,
        gen_crc_mask = 255, gen_ref_in = False, gen_ref_out = False\<rparr> \<and>
   create_windowed_todo \<lparr>params_polynomial = 7, params_width = 8, params_seed = 0,
        params_reflect_in = False, params_reflect_out = False, params_xor_out = 0\<rparr> = Inr \<lparr>win_poly = 7, win_width = 8, win_default_seed = 0, win_xor_out = 0,
        win_result_mask = 255, win_crc_lshift = 0, win_msb_lshift = 0, win_msbit_mask = 128,
        win_crc_mask = 255, win_ref_in = False, win_ref_out = False\<rparr> \<and>
   [49, 50] \<noteq> ([] :: byte list) \<and>
   CrcWindowed_calculate \<lparr>win_poly = 7, win_width = 8, win_default_seed = 0, win_xor_out = 0,
        win_result_mask = 255, win_crc_lshift = 0, win_msb_lshift = 0, win_msbit_mask = 128,
        win_crc_mask = 255, win_ref_in = False, win_ref_out = False\<rparr> [49, 50] 0 (Some 16) None = CrcGeneric_calculate \<lparr>gen_poly = 7, gen_width = 8, gen_default_seed = 0, gen_xor_out = 0,
        gen_result_mask = 255, gen_crc_lshift = 0, gen_msb_lshift = 0, gen_msbit_mask = 128,
        gen_crc_mask = 255, gen_ref_in = False, gen_ref_out = False\<rparr> [49, 50] None \<and>
   CrcWindowed_calculate \<lparr>win_poly = 7, win_width = 8, win_default_seed = 0, win_xor_out = 0,
        win_result_mask = 255, win_crc_lshift = 0, win_msb_lshift = 0, win_msbit_mask = 128,
        win_crc_mask = 255, win_ref_in = False, win_ref_out = False\<rparr> [49, 50] 0 None None = CrcGeneric_calculate \<lparr>gen_poly = 7, gen_width = 8, gen_default_seed = 0, gen_xor_out = 0,
        gen_result_mask = 255, gen_crc_lshift = 0, gen_msb_lshift = 0, gen_msbit_mask = 128,
        gen_crc_mask = 255, gen_ref_in = False, gen_ref_out = False\<rparr> [49, 50] None"
proof -
  have n: "[49, 50] \<noteq> ([] :: byte list)" by simp
  show ?thesis
    using windowed_whole_buffer[OF crc8_generic crc8_windowed n, of None] crc8_generic crc8_windowed
    by simp
qed

text \<open>
  C5 as stated fails for the empty range at the end of the buffer: for \<open>a = b = len(data)\<close>
  the start bit \<open>8 * a\<close> is out of range and the windowed engine raises \<open>ValueError\<close>, while
  the generic engine returns a value on the empty slice.
\<close>

theorem windowed_byte_range_counterexample:
  "create_generic 7 8 0 False False 0 = Inr \<lparr>gen_poly = 7, gen_width = 8, gen_default_seed = 0, gen_xor_out = 0,
        gen_result_mask = 255, gen_crc_lshift = 0, gen_msb_lshift = 0, gen_msbit_mask = 128,
        gen_crc_mask = 255, gen_ref_in = False, gen_ref_out = False\<rparr> \<and>
   create_windowed_todo \<lparr>params_polynomial = 7, params_width = 8, params_seed = 0,
        params_reflect_in = False, params_reflect_out = False, params_xor_out = 0\<rparr> = Inr \<lparr>win_poly = 7, win_width = 8, win_default_seed = 0, win_xor_out = 0,
        win_result_mask = 255, win_crc_lshift = 0, win_msb_lshift = 0, win_msbit_mask = 128,
        win_crc_mask = 255, win_ref_in = False, win_ref_out = False\<rparr> \<and>
   CrcWindowed_calculate \<lparr>win_poly = 7, win_width = 8, win_default_seed = 0, win_xor_out = 0,
        win_result_mask = 255, win_crc_lshift = 0, win_msb_lshift = 0, win_msbit_mask = 128,
        win_crc_mask = 255, win_ref_in = False, win_ref_out = False\<rparr> [49] (8 * 1) (Some (8 * (1 - 1))) None = Inl ValueError \<and>
   CrcGeneric_calculate \<lparr>gen_poly = 7, gen_width = 8, gen_default_seed = 0, gen_xor_out = 0,
        gen_result_mask = 255, gen_crc_lshift = 0, gen_msb_lshift = 0, gen_msbit_mask = 128,
        gen_crc_mask = 255, gen_ref_in = False, gen_ref_out = False\<rparr> (take (1 - 1) (drop 1 [49])) None = Inr 0"
  by (simp add: crc8_generic crc8_windowed CrcWindowed_calculate_def CrcGeneric_calculate_def
      bind_def lshift_def rshift_def)

text \<open>
  C5, amended. For every byte buffer and every byte-aligned range \<open>[a, b)\<close> of it that starts
  inside the buffer (\<open>a < len(data)\<close>, \<open>a <= b <= len(data)\<close>), the windowed engine's result
  for \<open>start_bit = 8 * a\<close> and \<open>length_bits = 8 * (b - a)\<close> equals the full-buffer generic
  engine's result on the slice \<open>data[a:b]\<close>, for the same parameters and the same seed
  argument.
\<close>

theorem windowed_byte_range:
  assumes "create_generic poly width seed ref_in ref_out xor_out = Inr g"
    and "create_windowed_todo \<lparr>params_polynomial = poly, params_width = width,
           params_seed = seed, params_reflect_in = ref_in, params_reflect_out = ref_out,
           params_xor_out = xor_out\<rparr> = Inr e"
    and "a < length data" and "a \<le> b" and "b \<le> length data"
  shows "CrcWindowed_calculate e data (8 * int a) (Some (8 * (int b - int a))) s =
         CrcGeneric_calculate g (take (b - a) (drop a data)) s"
  using assms by (rule windowed_bytes_eq_generic)

theorem windowed_byte_range_witness:
  "create_generic 7 8 0 False False 0 = Inr \<lparr>gen_poly = 7, gen_width = 8, gen_default_seed = 0, gen_xor_out = 0,
        gen_result_mask = 255, gen_crc_lshift = 0, gen_msb_lshift = 0, gen_msbit_mask = 128,
        gen_crc_mask = 255, gen_ref_in = False, gen_ref_out = False\<rparr> \<and>
   create_windowed_todo \<lparr>params_polynomial = 7, params_width = 8, params_seed = 0,
        params_reflect_in = False, params_reflect_out = False, params_xor_out = 0\<rparr> = Inr \<lparr>win_poly = 7, win_width = 8, win_default_seed = 0, win_xor_out = 0,
        win_result_mask = 255, win_crc_lshift = 0, win_msb_lshift = 0, win_msbit_mask = 128,
        win_crc_mask = 255, win_ref_in = False, win_ref_out = False\<rparr> \<and>
   (1::nat) < length [49, 50, 51 :: byte] \<and> (1::nat) \<le> 2 \<and> 2 \<le> length [49, 50, 51 :: byte] \<and>
   CrcWindowed_calculate \<lparr>win_poly = 7, win_width = 8, win_default_seed = 0, win_xor_out = 0,
        win_result_mask = 255, win_crc_lshift = 0, win_msb_lshift = 0, win_msbit_mask = 128,
        win_crc_mask = 255, win_ref_in = False, win_ref_out = False\<rparr> [49, 50, 51] 8 (Some 8) None = CrcGeneric_calculate \<lparr>gen_poly = 7, gen_width = 8, gen_default_seed = 0, gen_xor_out = 0,
        gen_result_mask = 255, gen_crc_lshift = 0, gen_msb_lshift = 0, gen_msbit_mask = 128,
        gen_crc_mask = 255, gen_ref_in = False, gen_ref_out = False\<rparr> [50] None"
proof -
  have h: "(1::nat) < length [49, 50, 51 :: byte]" "(1::nat) \<le> 2" "2 \<le> length [49, 50, 51 :: byte]"
    by simp_all
  show ?thesis
    using windowed_byte_range[OF crc8_generic crc8_windowed h, of None] crc8_generic crc8_windowed
    by simp
qed


section \<open>The entries of the LSB-first table are eight rounds of the shift register\<close>

lemma and_1_ne0: "(y AND 1 \<noteq> 0) = bit y 0" for y :: int
  using and_pow_ne0[of y 0] by simp

lemma lsbf_rounds_funpow: "lsbf_rounds n poly crc = (lsb_step poly ^^ n) crc"
  by (induction n arbitrary: crc) (simp_all add: lsb_step_def funpow_swap1)

lemma lsb_step_xor: "lsb_step p (a XOR b) = lsb_step p a XOR lsb_step p b"
proof -
  have d: "drop_bit 1 (a XOR b) = drop_bit 1 a XOR drop_bit 1 b"
    by (rule bit_eqI) (simp add: bit_drop_bit_eq bit_xor_iff)
  show ?thesis unfolding lsb_step_def and_1_ne0 d
    by (cases "bit a 0"; cases "bit b 0") (simp_all add: bit_xor_iff ac_simps)
qed

lemma lsb_funpow_xor: "(lsb_step p ^^ n) (a XOR b) = (lsb_step p ^^ n) a XOR (lsb_step p ^^ n) b"
  by (induction n arbitrary: a b) (simp_all add: funpow_swap1 lsb_step_xor)

lemma lsb_funpow_0: "(lsb_step p ^^ n) 0 = 0"
  by (induction n) (simp_all add: lsb_step_def)

lemma int_split_top_bit:
  "n < 2 ^ Suc k \<Longrightarrow> int n = (if bit n k then 2 ^ k else 0) XOR int (take_bit k n)"
proof -
  assume "n < 2 ^ Suc k"
  then have t: "take_bit (Suc k) n = n" by (simp add: take_bit_nat_eq_self_iff)
  have h: "\<not> bit n j" if "k < j" for j
  proof -
    have "bit (take_bit (Suc k) n) j = bit n j" unfolding t ..
    then show ?thesis using that by (simp add: bit_take_bit_iff)
  qed
  show ?thesis
  proof (rule bit_eqI)
    fix j
    consider "j < k" | "j = k" | "k < j" by linarith
    then show "bit (int n) j = bit ((if bit n k then 2 ^ k else 0) XOR int (take_bit k n)) j"
      by cases (auto simp add: bit_xor_iff bit_exp_iff bit_of_nat_iff_bit bit_take_bit_iff h)
  qed
qed

lemma linear_xor_bits:
  assumes lin: "\<And>a b. F (a XOR b) = F a XOR F b" and z: "F 0 = (0::int)"
  shows "n < 2 ^ k \<Longrightarrow> F (int n) = xor_bits (\<lambda>j. F (2 ^ j)) [0..<k] n"
proof (induction k arbitrary: n)
  case 0
  then show ?case by (simp add: z)
next
  case (Suc k)
  have m: "take_bit k n < 2 ^ k" by simp
  have c: "xor_bits (\<lambda>j. F (2 ^ j)) [0..<k] (take_bit k n) = xor_bits (\<lambda>j. F (2 ^ j)) [0..<k] n"
    by (rule xor_bits_cong) (simp add: bit_take_bit_iff)
  have "F (int n) = F (if bit n k then 2 ^ k else 0) XOR F (int (take_bit k n))"
    by (subst int_split_top_bit[OF Suc.prems]) (rule lin)
  also have "\<dots> = (if bit n k then F (2 ^ k) else 0) XOR xor_bits (\<lambda>j. F (2 ^ j)) [0..<k] n"
    using Suc.IH[OF m] c by (simp add: z)
  finally show ?case by (simp add: xor_bits_append)
qed

lemma xor_bits_cong_fun: "(\<And>b. b \<in> set bs \<Longrightarrow> c b = c' b) \<Longrightarrow> xor_bits c bs n = xor_bits c' bs n"
  by (induction bs) auto

lemma lsb_funpow_pow: "(lsb_step p ^^ j) (2 ^ j) = 1"
proof (induction j)
  case 0 then show ?case by simp
next
  case (Suc j)
  have "lsb_step p (2 ^ Suc j) = 2 ^ j"
    by (simp add: lsb_step_def and_1_ne0 bit_0 drop_bit_eq_div)
  then show ?case using Suc by (simp add: funpow_swap1)
qed

lemma lsb_entry_funpow: "j < 8 \<Longrightarrow> lsb_entry p j = (lsb_step p ^^ 8) (2 ^ j)"
proof -
  assume "j < 8"
  then have "(8::nat) = (8 - j) + j" by simp
  then have "(lsb_step p ^^ 8) (2 ^ j) = (lsb_step p ^^ (8 - j)) ((lsb_step p ^^ j) (2 ^ j))"
    by (metis funpow_add o_apply)
  then show ?thesis by (simp add: lsb_entry_def lsbf_rounds_funpow lsb_funpow_pow)
qed

lemma create_lsb_table_nth:
  assumes "n < 256"
  shows "create_lsb_table poly width ! n = lsbf_rounds 8 (bit_reverse_n poly width) (int n)"
proof -
  let ?p = "bit_reverse_n poly width"
  have "n < 2 ^ 8" using assms by simp
  then have "(lsb_step ?p ^^ 8) (int n) = xor_bits (\<lambda>j. (lsb_step ?p ^^ 8) (2 ^ j)) [0..<8] n"
    by (rule linear_xor_bits[of "lsb_step ?p ^^ 8", OF lsb_funpow_xor lsb_funpow_0])
  also have "\<dots> = xor_bits (lsb_entry ?p) [0..<8] n"
    by (rule xor_bits_cong_fun) (simp add: lsb_entry_funpow)
  finally show ?thesis
    using create_lsb_table_entries[of poly width] assms by (simp add: lsbf_rounds_funpow)
qed


section \<open>The CRC-32 check value\<close>

lemma xor_byte_index:
  "0 \<le> (crc AND 255) XOR uint b" "(crc AND 255) XOR uint b < 256" for b :: byte
proof -
  have "take_bit 8 ((crc AND 255) XOR uint b) = (crc AND 255) XOR uint b"
    using uint_byte_bounds[of b]
    by (simp add: take_bit_xor and_255_take_bit take_bit_int_eq_self)
  then show "0 \<le> (crc AND 255) XOR uint b" "(crc AND 255) XOR uint b < 256"
    using take_bit_int_less_exp[of 8 "(crc AND 255) XOR uint b"]
      take_bit_nonnegative[of 8 "(crc AND 255) XOR uint b"] by simp_all
qed

lemma lsbf_loop_Cons:
  assumes "lsbf_table e = create_lsb_table poly width"
  shows "lsbf_loop e crc (b # data) =
     lsbf_loop e ((drop_bit 8 crc XOR
        lsbf_rounds 8 (bit_reverse_n poly width) ((crc AND 255) XOR uint b))
        AND lsbf_result_mask e) data"
proof -
  let ?i = "(crc AND 255) XOR uint b"
  have n: "nat ?i < 256" using xor_byte_index[of crc b] by linarith
  have "getitem (lsbf_table e) ?i = Inr (create_lsb_table poly width ! nat ?i)"
    using xor_byte_index[of crc b] create_lsb_table_entries[of poly width]
    by (simp add: getitem_def assms)
  also have "create_lsb_table poly width ! nat ?i = lsbf_rounds 8 (bit_reverse_n poly width) ?i"
    using create_lsb_table_nth[OF n, of poly width] xor_byte_index(1)[of crc b] by simp
  finally show ?thesis by (simp add: bind_def del: lsbf_rounds.simps)
qed

lemma crc32_poly: "bit_reverse_n 0x04C11DB7 32 = 0xEDB88320"
  by (simp add: eval_rev)

lemma crc32_seed: "bit_reverse_n 0xFFFFFFFF 32 = 0xFFFFFFFF"
  by (simp add: eval_rev)

lemma crc32_engine:
  "create 0x04C11DB7 32 0xFFFFFFFF True True 0xFFFFFFFF =
     Inr (Lsbf \<lparr>lsbf_table = create_lsb_table 0x04C11DB7 32, lsbf_seed = 0xFFFFFFFF,
                lsbf_width = 32, lsbf_xor_out = 0xFFFFFFFF, lsbf_result_mask = 0xFFFFFFFF,
                lsbf_reverse_result = False\<rparr>)"
  by (simp add: create_def CrcLsbfTable_init_def bind_def lshift_def)

text \<open>
  C1. The engine built by \<open>create(poly=0x04C11DB7, width=32, seed=0xFFFFFFFF, ref_in=True,
  ref_out=True, xor_out=0xFFFFFFFF)\<close> is constructed, and its \<open>calculate\<close> on the ASCII bytes
  of \<open>123456789\<close> returns \<open>0xCBF43926\<close>.
\<close>

theorem crc32_check_value:
  "bind (create 0x04C11DB7 32 0xFFFFFFFF True True 0xFFFFFFFF)
     (\<lambda>engine. calculate engine (map of_char ''123456789'')) = Inr 0xCBF43926"
proof -
  let ?e = "\<lparr>lsbf_table = create_lsb_table 0x04C11DB7 32, lsbf_seed = 0xFFFFFFFF,
                lsbf_width = 32, lsbf_xor_out = 0xFFFFFFFF, lsbf_result_mask = 0xFFFFFFFF,
                lsbf_reverse_result = False\<rparr>"
  have t: "lsbf_table ?e = create_lsb_table 0x04C11DB7 32" by simp
  have d: "map of_char ''123456789'' = [49, 50, 51, 52, 53, 54, 55, 56, 57 :: byte]" by simp
  have v1: "(drop_bit 8 4294967295 XOR lsbf_rounds 8 0xEDB88320 ((4294967295 AND 255) XOR 49)) AND 0xFFFFFFFF = (2082672712::int)"
    by (simp add: eval_nat_numeral drop_bit_eq_div)
  have s1: "lsbf_loop ?e 4294967295 (49 # ds) = lsbf_loop ?e 2082672712 ds" for ds
    using v1 by (simp add: lsbf_loop_Cons[OF t] crc32_poly del: lsbf_rounds.simps lsbf_loop.simps)
  have v2: "(drop_bit 8 2082672712 XOR lsbf_rounds 8 0xEDB88320 ((2082672712 AND 255) XOR 50)) AND 0xFFFFFFFF = (2964110130::int)"
    by (simp add: eval_nat_numeral drop_bit_eq_div)
  have s2: "lsbf_loop ?e 2082672712 (50 # ds) = lsbf_loop ?e 2964110130 ds" for ds
    using v2 by (simp add: lsbf_loop_Cons[OF t] crc32_poly del: lsbf_rounds.simps lsbf_loop.simps)
  have v3: "(drop_bit 8 2964110130 XOR lsbf_rounds 8 0xEDB88320 ((2964110130 AND 255) XOR 51)) AND 0xFFFFFFFF = (2008521773::int)"
    by (simp add: eval_nat_numeral drop_bit_eq_div)
  have s3: "lsbf_loop ?e 2964110130 (51 # ds) = lsbf_loop ?e 2008521773 ds" for ds
    using v3 by (simp add: lsbf_loop_Cons[OF t] crc32_poly del: lsbf_rounds.simps lsbf_loop.simps)
  have v4: "(drop_bit 8 2008521773 XOR lsbf_rounds 8 0xEDB88320 ((2008521773 AND 255) XOR 52)) AND 0xFFFFFFFF = (1679564636::int)"
    by (simp add: eval_nat_numeral drop_bit_eq_div)
  have s4: "lsbf_loop ?e 2008521773 (52 # ds) = lsbf_loop ?e 1679564636 ds" for ds
    using v4 by (simp add: lsbf_loop_Cons[OF t] crc32_poly del: lsbf_rounds.simps lsbf_loop.simps)
  have v5: "(drop_bit 8 1679564636 XOR lsbf_rounds 8 0xEDB88320 ((1679564636 AND 255) XOR 53)) AND 0xFFFFFFFF = (873121251::int)"
    by (simp add: eval_nat_numeral drop_bit_eq_div)
  have s5: "lsbf_loop ?e 1679564636 (53 # ds) = lsbf_loop ?e 873121251 ds" for ds
    using v5 by (simp add: lsbf_loop_Cons[OF t] crc32_poly del: lsbf_rounds.simps lsbf_loop.simps)
  have v6: "(drop_bit 8 873121251 XOR lsbf_rounds 8 0xEDB88320 ((873121251 AND 255) XOR 54)) AND 0xFFFFFFFF = (4136447134::int)"
    by (simp add: eval_nat_numeral drop_bit_eq_div)
  have s6: "lsbf_loop ?e 873121251 (54 # ds) = lsbf_loop ?e 4136447134 ds" for ds
    using v6 by (simp add: lsbf_loop_Cons[OF t] crc32_poly del: lsbf_rounds.simps lsbf_loop.simps)
  have v7: "(drop_bit 8 4136447134 XOR lsbf_rounds 8 0xEDB88320 ((4136447134 AND 255) XOR 55)) AND 0xFFFFFFFF = (2952566368::int)"
    by (simp add: eval_nat_numeral drop_bit_eq_div)
  have s7: "lsbf_loop ?e 4136447134 (55 # ds) = lsbf_loop ?e 2952566368 ds" for ds
    using v7 by (simp add: lsbf_loop_Cons[OF t] crc32_poly del: lsbf_rounds.simps lsbf_loop.simps)
  have v8: "(drop_bit 8 2952566368 XOR lsbf_rounds 8 0xEDB88320 ((2952566368 AND 255) XOR 56)) AND 0xFFFFFFFF = (1696539984::int)"
    by (simp add: eval_nat_numeral drop_bit_eq_div)
  have s8: "lsbf_loop ?e 2952566368 (56 # ds) = lsbf_loop ?e 1696539984 ds" for ds
    using v8 by (simp add: lsbf_loop_Cons[OF t] crc32_poly del: lsbf_rounds.simps lsbf_loop.simps)
  have v9: "(drop_bit 8 1696539984 XOR lsbf_rounds 8 0xEDB88320 ((1696539984 AND 255) XOR 57)) AND 0xFFFFFFFF = (873187033::int)"
    by (simp add: eval_nat_numeral drop_bit_eq_div)
  have s9: "lsbf_loop ?e 1696539984 (57 # ds) = lsbf_loop ?e 873187033 ds" for ds
    using v9 by (simp add: lsbf_loop_Cons[OF t] crc32_poly del: lsbf_rounds.simps lsbf_loop.simps)
  have "lsbf_loop ?e 0xFFFFFFFF [49, 50, 51, 52, 53, 54, 55, 56, 57] = Inr 873187033"
    by (simp only: s1 s2 s3 s4 s5 s6 s7 s8 s9 lsbf_loop.simps(1))
  then show ?thesis unfolding crc32_engine d
    by (simp add: bind_def CrcLsbfTable_calculate_def crc32_seed)
qed


section \<open>The MSB-first table engine and the bit-by-bit rounds\<close>

lemma msb_step_round:
  "0 < W \<Longrightarrow> msb_step p (2 ^ (W - 1)) (2 ^ W - 1) = msb_round W p"
  by (rule ext) (simp add: msb_step_def msb_round_def and_pow_ne0 and_mask_take_bit)

lemma windowed_rounds_funpow:
  "windowed_rounds n m cm p x = (msb_step p m cm ^^ n) x"
  by (induction n arbitrary: x) (simp_all add: msb_step_def funpow_swap1)

lemma push_bit_xor_int: "push_bit n (a XOR b) = push_bit n a XOR push_bit n b" for a b :: int
  by (rule bit_eqI) (auto simp add: bit_push_bit_iff bit_xor_iff)

lemma msb_round_xor: "msb_round W p (a XOR b) = msb_round W p a XOR msb_round W p b"
  unfolding msb_round_def push_bit_xor_int
  by (cases "bit a (W - 1)"; cases "bit b (W - 1)")
     (simp_all add: bit_xor_iff take_bit_xor ac_simps del: push_bit_of_Suc_0)

lemma msb_funpow_xor:
  "(msb_round W p ^^ n) (a XOR b) = (msb_round W p ^^ n) a XOR (msb_round W p ^^ n) b"
  by (induction n) (simp_all add: msb_round_xor)

lemma msb_funpow_0: "(msb_round W p ^^ n) 0 = 0"
  by (induction n) (simp_all add: msb_round_def)

lemma msb_round_range: "take_bit W (msb_round W p x) = msb_round W p x"
  by (simp add: msb_round_def)

lemma msb_funpow_shift:
  "0 \<le> lo \<Longrightarrow> lo < 2 ^ q \<Longrightarrow> q + i \<le> W \<Longrightarrow> (msb_round W p ^^ i) lo = push_bit i lo"
proof (induction i arbitrary: lo q)
  case 0
  then show ?case by simp
next
  case (Suc i)
  have t: "take_bit q lo = lo" using Suc.prems(1,2) by (simp add: take_bit_int_eq_self)
  have nb: "\<not> bit lo j" if "q \<le> j" for j
  proof -
    have "bit (take_bit q lo) j = bit lo j" unfolding t ..
    then show ?thesis using that by (simp add: bit_take_bit_iff)
  qed
  have "q \<le> W - 1" using Suc.prems(3) by simp
  then have "\<not> bit lo (W - 1)" by (rule nb)
  then have "msb_round W p lo = take_bit W (push_bit 1 lo)"
    by (simp add: msb_round_def)
  also have "\<dots> = push_bit 1 lo"
  proof (rule bit_eqI)
    fix j
    have "\<not> bit lo (j - 1)" if "W \<le> j"
      using that Suc.prems(3) by (intro nb) simp
    then show "bit (take_bit W (push_bit 1 lo)) j = bit (push_bit 1 lo) j"
      by (cases "j < W") (auto simp add: bit_take_bit_iff bit_times2)
  qed
  finally have s: "msb_round W p lo = push_bit 1 lo" .
  have b: "0 \<le> push_bit 1 lo" "push_bit 1 lo < 2 ^ Suc q"
    using Suc.prems(1,2) by (simp_all add: push_bit_eq_mult)
  have "(msb_round W p ^^ i) (push_bit 1 lo) = push_bit i (push_bit 1 lo)"
    using Suc.prems(3) by (intro Suc.IH[OF b]) simp
  then show ?case by (simp add: funpow_swap1 s push_bit_eq_mult)
qed

lemma create_msb_table_nth:
  assumes W: "8 \<le> W" and n: "n < 256"
  shows "\<exists>t. create_msb_table poly (int W) = Inr t \<and> length t = 256 \<and>
     t ! n = (msb_round W poly ^^ 8) (push_bit (W - 8) (int n))"
proof -
  let ?S = "msb_round W poly"
  let ?F = "\<lambda>x. (?S ^^ 8) (push_bit (W - 8) x)"
  have W0: "0 < W" using W by simp
  have w1: "1 \<le> int W" using W by simp
  have e: "push_bit (nat (int W - 1)) 1 = (2::int) ^ (W - 1)"
    "push_bit (nat (int W)) 1 - 1 = (2::int) ^ W - 1"
    using W0 by (simp_all add: nat_diff_distrib)
  obtain t where t: "create_msb_table poly (int W) = Inr t" "length t = 256"
    "\<forall>n<256. t ! n = xor_bits (\<lambda>j. (?S ^^ Suc j) (2 ^ (W - 1))) [0..<8] n"
    using create_msb_table_entries[OF w1, of poly] unfolding e msb_step_round[OF W0] by blast
  have lin: "?F (a XOR b) = ?F a XOR ?F b" for a b
    by (simp only: push_bit_xor_int msb_funpow_xor)
  have z: "?F 0 = 0" by (simp add: msb_funpow_0)
  have "n < 2 ^ 8" using n by simp
  then have "?F (int n) = xor_bits (\<lambda>j. ?F (2 ^ j)) [0..<8] n"
    by (rule linear_xor_bits[of ?F, OF lin z])
  also have "\<dots> = xor_bits (\<lambda>j. (?S ^^ Suc j) (2 ^ (W - 1))) [0..<8] n"
  proof (rule xor_bits_cong_fun)
    fix j assume "j \<in> set [0..<8]"
    then have j: "j < 8" by simp
    have p: "push_bit (W - 8) (2 ^ j) = (2::int) ^ (W - 8 + j)"
      by (simp add: push_bit_eq_mult power_add)
    have "(8::nat) = Suc j + (7 - j)" using j by simp
    then have "(?S ^^ 8) (2 ^ (W - 8 + j)) = (?S ^^ Suc j) ((?S ^^ (7 - j)) (2 ^ (W - 8 + j)))"
      by (metis funpow_add o_apply)
    also have "(?S ^^ (7 - j)) (2 ^ (W - 8 + j)) = push_bit (7 - j) (2 ^ (W - 8 + j))"
      using j W by (intro msb_funpow_shift[where q = "Suc (W - 8 + j)"]) simp_all
    also have "\<dots> = 2 ^ (W - 1)"
    proof -
      have "W - 8 + j + (7 - j) = W - 1" using j W by simp
      then show ?thesis by (simp add: push_bit_eq_mult flip: power_add)
    qed
    finally show "?F (2 ^ j) = (?S ^^ Suc j) (2 ^ (W - 1))" unfolding p .
  qed
  finally show ?thesis using t n by simp
qed


lemma generic_byte_rounds:
  assumes "0 < W"
  shows "generic_rounds 8 (2 ^ (W - 1)) p x AND (2 ^ W - 1) = (msb_round W p ^^ 8) x"
proof -
  have "generic_rounds 8 (2 ^ (W - 1)) p x AND (2 ^ W - 1)
      = take_bit W (generic_rounds 8 (2 ^ (W - 1)) p x)"
    by (rule and_mask_take_bit)
  also have "\<dots> = windowed_rounds 8 (2 ^ (W - 1)) (2 ^ W - 1) p x"
    using windowed_rounds_generic[OF assms, of 8 p x] by (simp only: if_False numeral_neq_zero)
  also have "\<dots> = (msb_step p (2 ^ (W - 1)) (2 ^ W - 1) ^^ 8) x"
    by (rule windowed_rounds_funpow)
  finally show ?thesis by (simp only: msb_step_round[OF assms])
qed

lemma msb_funpow_range:
  "0 \<le> (msb_round W p ^^ Suc n) x" "(msb_round W p ^^ Suc n) x < 2 ^ W"
proof -
  have "(msb_round W p ^^ Suc n) x = take_bit W ((msb_round W p ^^ Suc n) x)"
    by (simp add: msb_round_range)
  then show "0 \<le> (msb_round W p ^^ Suc n) x" "(msb_round W p ^^ Suc n) x < 2 ^ W"
    using take_bit_nonnegative[of W "(msb_round W p ^^ Suc n) x"]
      take_bit_int_less_exp[of W "(msb_round W p ^^ Suc n) x"] by simp_all
qed

lemma msb_table_byte:
  fixes b :: byte
  assumes W: "8 \<le> W" and x: "0 \<le> x" "x < 2 ^ W"
    and t: "create_msb_table poly (int W) = Inr t"
  shows "0 \<le> drop_bit (W - 8) x XOR uint b" "drop_bit (W - 8) x XOR uint b < 256"
    "(push_bit 8 x XOR t ! nat (drop_bit (W - 8) x XOR uint b)) AND (2 ^ W - 1) =
       (msb_round W poly ^^ 8) (x XOR push_bit (W - 8) (uint b))"
proof -
  let ?hi = "drop_bit (W - 8) x" and ?lo = "take_bit (W - 8) x"
  let ?i = "?hi XOR uint b"
  have tx: "take_bit W x = x" using x by (simp add: take_bit_int_eq_self)
  have xb: "\<not> bit x j" if "W \<le> j" for j
  proof -
    have "bit (take_bit W x) j = bit x j" unfolding tx ..
    then show ?thesis using that by (simp add: bit_take_bit_iff)
  qed
  have tb: "take_bit 8 (uint b) = uint b"
    using uint_byte_bounds[of b] by (simp add: take_bit_int_eq_self)
  have th: "take_bit 8 ?hi = ?hi"
  proof (rule bit_eqI)
    fix j
    show "bit (take_bit 8 ?hi) j = bit ?hi j"
      using xb[of "W - 8 + j"] W by (cases "j < 8") (auto simp add: bit_take_bit_iff bit_drop_bit_eq)
  qed
  have ti: "take_bit 8 ?i = ?i" by (simp add: take_bit_xor th tb)
  show i: "0 \<le> ?i" "?i < 256"
    using take_bit_nonnegative[of 8 ?i] take_bit_int_less_exp[of 8 ?i] unfolding ti by simp_all
  then have n: "nat ?i < 256" by linarith
  obtain t' where t': "create_msb_table poly (int W) = Inr t'"
    "t' ! nat ?i = (msb_round W poly ^^ 8) (push_bit (W - 8) (int (nat ?i)))"
    using create_msb_table_nth[OF W n, of poly] by blast
  have tn: "t ! nat ?i = (msb_round W poly ^^ 8) (push_bit (W - 8) ?i)"
    using t t' i(1) by simp
  have split: "x XOR push_bit (W - 8) (uint b) = ?lo XOR push_bit (W - 8) ?i"
  proof (rule bit_eqI)
    fix j
    show "bit (x XOR push_bit (W - 8) (uint b)) j = bit (?lo XOR push_bit (W - 8) ?i) j"
    proof (cases "j < W - 8")
      case True
      then show ?thesis by (simp add: bit_xor_iff bit_push_bit_iff bit_take_bit_iff)
    next
      case False
      then have "W - 8 + (j - (W - 8)) = j" by simp
      then show ?thesis using False
        by (simp add: bit_xor_iff bit_push_bit_iff bit_take_bit_iff bit_drop_bit_eq)
    qed
  qed
  have lo: "(msb_round W poly ^^ 8) ?lo = push_bit 8 ?lo"
    using W by (intro msb_funpow_shift[where q = "W - 8"]) simp_all
  have "W = 8 + (W - 8)" using W by simp
  then have pl: "take_bit W (push_bit 8 x) = push_bit 8 ?lo"
    by (metis add_diff_cancel_left' take_bit_push_bit W)
  have tr: "take_bit W (t ! nat ?i) = t ! nat ?i"
    unfolding tn using msb_round_range[of W poly] by (simp add: eval_nat_numeral)
  have "(push_bit 8 x XOR t ! nat ?i) AND (2 ^ W - 1) = push_bit 8 ?lo XOR t ! nat ?i"
    by (simp only: and_mask_take_bit take_bit_xor pl tr)
  also have "\<dots> = (msb_round W poly ^^ 8) (?lo XOR push_bit (W - 8) ?i)"
    by (simp only: msb_funpow_xor lo tn)
  finally show "(push_bit 8 x XOR t ! nat ?i) AND (2 ^ W - 1) =
       (msb_round W poly ^^ 8) (x XOR push_bit (W - 8) (uint b))"
    unfolding split .
qed

lemma msb_loops_agree:
  assumes W: "8 \<le> W" and t: "create_msb_table poly (int W) = Inr t" "length t = 256"
    and e: "msbf_table e = t" "msbf_result_mask e = 2 ^ W - 1" "msbf_msb_lshift e = int W - 8"
    and g: "gen_msb_lshift g = int W - 8" "gen_msbit_mask g = 2 ^ (W - 1)"
      "gen_crc_mask g = 2 ^ W - 1" "\<not> gen_ref_in g"
  shows "0 \<le> x \<Longrightarrow> x < 2 ^ W \<Longrightarrow> msbf_loop e x data = generic_loop g poly x data"
proof (induction data arbitrary: x)
  case Nil
  then show ?case by simp
next
  case (Cons b data)
  let ?x = "(msb_round W poly ^^ 8) (x XOR push_bit (W - 8) (uint b))"
  have W0: "0 < W" using W by simp
  have s: "nat (int W - 8) = W - 8" using W by simp
  note tb = msb_table_byte[OF W Cons.prems t(1), of b]
  have m: "msbf_loop e x (b # data) = msbf_loop e ?x data"
    using tb W by (simp add: e t(2) rshift_def bind_def getitem_def s)
  have r: "0 \<le> ?x" "?x < 2 ^ W"
    using msb_funpow_range[where W = W and p = poly and n = 7] by (simp_all add: eval_nat_numeral)
  have "generic_loop g poly x (b # data) = generic_loop g poly ?x data"
    using W by (simp add: g lshift_def bind_def Let_def s generic_byte_rounds[OF W0]
        del: generic_rounds.simps One_nat_def)
  then show ?case unfolding m using Cons.IH[OF r] by simp
qed


end
